theory Spec2Isabelle
  imports Main
begin

section \<open>Text\<close>

text \<open>
  The script \<^verbatim>\<open>.github/scripts/parse_unity_output.py\<close> reads a log as a Python
  \<^verbatim>\<open>str\<close>: a sequence of Unicode code points. A code point is a natural number, a
  string a list of them. \<open>lit\<close> turns an ASCII literal of the source into such a string.
\<close>

type_synonym codepoint = nat
type_synonym str = "codepoint list"

definition lit :: "string \<Rightarrow> str" where
  "lit cs = map of_char cs"

text \<open>
  The classes \<^verbatim>\<open>\d\<close> and \<^verbatim>\<open>\s\<close> of a \<^verbatim>\<open>str\<close> pattern, and the digits
  \<^verbatim>\<open>int()\<close> accepts, come from the interpreter's Unicode tables, which are not part
  of the repository and grow with the Unicode version. They are a parameter of the model:
  \<open>todecimal T c\<close> is the value of the decimal digit \<open>c\<close> (\<open>None\<close> when \<open>c\<close> is not a
  decimal digit), \<open>isspace T c\<close> says that \<open>c\<close> is whitespace. \<^verbatim>\<open>\d\<close> matches exactly
  the code points \<^verbatim>\<open>int()\<close> reads as digits.
\<close>

record tables =
  todecimal :: "codepoint \<Rightarrow> nat option"
  isspace :: "codepoint \<Rightarrow> bool"

text \<open>
  Below 128 the tables are fixed: the digits \<^verbatim>\<open>0\<close> to \<^verbatim>\<open>9\<close>, and as whitespace
  tab, line feed, vertical tab, form feed, carriage return, the four separators
  \<^verbatim>\<open>0x1c\<close> to \<^verbatim>\<open>0x1f\<close>, and the space.
\<close>

definition ascii_tables :: tables where
  "ascii_tables =
     \<lparr> todecimal = (\<lambda>c. if 48 \<le> c \<and> c \<le> 57 then Some (c - 48) else None),
       isspace = (\<lambda>c. (9 \<le> c \<and> c \<le> 13) \<or> (28 \<le> c \<and> c \<le> 32)) \<rparr>"

definition agrees_ascii :: "tables \<Rightarrow> bool" where
  "agrees_ascii T =
     (\<forall>c < 128. todecimal T c = todecimal ascii_tables c \<and> isspace T c = isspace ascii_tables c)"

definition ascii_text :: "str \<Rightarrow> bool" where
  "ascii_text s = list_all (\<lambda>c. c < 128) s"

section \<open>The regular-expression search\<close>

text \<open>
  The pattern of the source is
  \<^verbatim>\<open>(\d+)\s+Tests\s+(\d+)\s+Failures\s+(\d+)\s+Ignored\<close>: a concatenation of
  literal text and of greedy one-or-more repetitions of a character class, three of
  them captured. The model covers patterns of this form.
\<close>

datatype cclass = Digit | Space

datatype item =
    Lit str            \<comment> \<open>literal text\<close>
  | Plus cclass        \<comment> \<open>\<^verbatim>\<open>\d+\<close>, \<^verbatim>\<open>\s+\<close>\<close>
  | GroupPlus cclass   \<comment> \<open>\<^verbatim>\<open>(\d+)\<close>: the same, captured\<close>

fun in_class :: "tables \<Rightarrow> cclass \<Rightarrow> codepoint \<Rightarrow> bool" where
  "in_class T Digit c = (todecimal T c \<noteq> None)"
| "in_class T Space c = isspace T c"

text \<open>
  The engine matches by backtracking. A greedy repetition first takes the longest run of
  its class, then gives characters back one at a time until the rest of the pattern
  matches; it keeps at least one. \<open>first_some f k\<close> tries the lengths \<open>k\<close>, \<open>k - 1\<close>,
  ..., \<open>1\<close> in this order and returns the first success.
\<close>

fun first_some :: "(nat \<Rightarrow> 'a option) \<Rightarrow> nat \<Rightarrow> 'a option" where
  "first_some f 0 = None"
| "first_some f (Suc k) =
     (case f (Suc k) of Some r \<Rightarrow> Some r | None \<Rightarrow> first_some f k)"

text \<open>
  \<open>match_here T p s\<close> matches the pattern \<open>p\<close> at the start of \<open>s\<close>. It returns the
  captured groups and the number of characters consumed.
\<close>

fun match_here :: "tables \<Rightarrow> item list \<Rightarrow> str \<Rightarrow> (str list \<times> nat) option" where
  "match_here T [] s = Some ([], 0)"
| "match_here T (Lit l # p) s =
     (if take (length l) s = l
      then map_option (\<lambda>(gs, n). (gs, length l + n)) (match_here T p (drop (length l) s))
      else None)"
| "match_here T (Plus cl # p) s =
     first_some
       (\<lambda>k. map_option (\<lambda>(gs, n). (gs, k + n)) (match_here T p (drop k s)))
       (length (takeWhile (in_class T cl) s))"
| "match_here T (GroupPlus cl # p) s =
     first_some
       (\<lambda>k. map_option (\<lambda>(gs, n). (take k s # gs, k + n)) (match_here T p (drop k s)))
       (length (takeWhile (in_class T cl) s))"

lemma first_some_SomeD:
  "first_some f k = Some r \<Longrightarrow>
     \<exists>j. 0 < j \<and> j \<le> k \<and> f j = Some r \<and> (\<forall>i. j < i \<and> i \<le> k \<longrightarrow> f i = None)"
proof (induction k)
  case 0
  then show ?case by simp
next
  case (Suc k)
  show ?case
  proof (cases "f (Suc k)")
    case None
    with Suc.prems have "first_some f k = Some r" by simp
    from Suc.IH [OF this] obtain j where
      j: "0 < j" "j \<le> k" "f j = Some r" "\<forall>i. j < i \<and> i \<le> k \<longrightarrow> f i = None"
      by blast
    have "\<forall>i. j < i \<and> i \<le> Suc k \<longrightarrow> f i = None"
      using j(4) None by (auto simp: le_Suc_eq)
    with j show ?thesis by (intro exI [of _ j]) simp
  next
    case (Some a)
    with Suc.prems have "f (Suc k) = Some r" by simp
    then show ?thesis by (intro exI [of _ "Suc k"]) auto
  qed
qed

lemma first_some_None_iff:
  "first_some f k = None \<longleftrightarrow> (\<forall>j. 0 < j \<and> j \<le> k \<longrightarrow> f j = None)"
proof (induction k)
  case 0
  then show ?case by simp
next
  case (Suc k)
  show ?case
  proof (cases "f (Suc k)")
    case None
    then show ?thesis using Suc.IH by (auto simp: le_Suc_eq)
  next
    case (Some a)
    then show ?thesis by auto
  qed
qed

lemma match_here_le:
  "match_here T p s = Some (gs, n) \<Longrightarrow> n \<le> length s"
proof (induction p arbitrary: s gs n)
  case Nil
  then show ?case by simp
next
  case (Cons x p)
  show ?case
  proof (cases x)
    case (Lit l)
    with Cons.prems obtain gs' n' where
      l: "take (length l) s = l" and
      m: "match_here T p (drop (length l) s) = Some (gs', n')" and
      n: "n = length l + n'"
      by (auto split: if_splits)
    from l have "length (take (length l) s) = length l" by simp
    then have "length l \<le> length s" by simp
    moreover from Cons.IH [OF m] have "n' \<le> length s - length l" by simp
    ultimately show ?thesis using n by simp
  next
    case (Plus cl)
    with Cons.prems have
      "first_some (\<lambda>k. map_option (\<lambda>(gs, n). (gs, k + n)) (match_here T p (drop k s)))
         (length (takeWhile (in_class T cl) s)) = Some (gs, n)"
      by simp
    from first_some_SomeD [OF this] obtain j gs' n' where
      j: "j \<le> length (takeWhile (in_class T cl) s)" and
      m: "match_here T p (drop j s) = Some (gs', n')" and
      n: "n = j + n'"
      by auto
    from j have "j \<le> length s"
      using length_takeWhile_le [of "in_class T cl" s] by simp
    moreover from Cons.IH [OF m] have "n' \<le> length s - j" by simp
    ultimately show ?thesis using n by simp
  next
    case (GroupPlus cl)
    with Cons.prems have
      "first_some (\<lambda>k. map_option (\<lambda>(gs, n). (take k s # gs, k + n)) (match_here T p (drop k s)))
         (length (takeWhile (in_class T cl) s)) = Some (gs, n)"
      by simp
    from first_some_SomeD [OF this] obtain j gs' n' where
      j: "j \<le> length (takeWhile (in_class T cl) s)" and
      m: "match_here T p (drop j s) = Some (gs', n')" and
      n: "n = j + n'"
      by auto
    from j have "j \<le> length s"
      using length_takeWhile_le [of "in_class T cl" s] by simp
    moreover from Cons.IH [OF m] have "n' \<le> length s - j" by simp
    ultimately show ?thesis using n by simp
  qed
qed

text \<open>
  \<^verbatim>\<open>re.finditer\<close>: the scan goes from left to right. Where the pattern matches, the
  match is recorded as (start, end, groups) and the scan goes on at its end; where it
  does not, the scan moves one character on. After an empty match the scan moves one
  character on as well.
\<close>

function finditer :: "tables \<Rightarrow> item list \<Rightarrow> nat \<Rightarrow> str \<Rightarrow> (nat \<times> nat \<times> str list) list" where
  "finditer T p pos s =
     (case match_here T p s of
        Some (gs, n) \<Rightarrow>
          (pos, pos + n, gs) #
            (if n = 0 then (case s of [] \<Rightarrow> [] | _ # xs \<Rightarrow> finditer T p (Suc pos) xs)
             else finditer T p (pos + n) (drop n s))
      | None \<Rightarrow> (case s of [] \<Rightarrow> [] | _ # xs \<Rightarrow> finditer T p (Suc pos) xs))"
  by pat_completeness auto
termination
  by (relation "measure (\<lambda>(T, p, pos, s). length s)") (auto dest!: match_here_le)

text \<open>
  \<^verbatim>\<open>re.findall\<close> returns, for a pattern with several groups, the tuple of the groups
  of every match, in the order of the scan.
\<close>

definition re_findall :: "tables \<Rightarrow> item list \<Rightarrow> str \<Rightarrow> str list list" where
  "re_findall T p s = map (\<lambda>(st, en, gs). gs) (finditer T p 0 s)"

definition pattern :: "item list" where
  "pattern =
     [GroupPlus Digit, Plus Space, Lit (lit ''Tests''), Plus Space,
      GroupPlus Digit, Plus Space, Lit (lit ''Failures''), Plus Space,
      GroupPlus Digit, Plus Space, Lit (lit ''Ignored'')]"

section \<open>Exceptions and printed text\<close>

text \<open>
  A printed line is a list of fragments, as an f-string is: literal text of the source,
  a single code point outside ASCII, a formatted integer, \<^verbatim>\<open>str()\<close> of a path,
  \<^verbatim>\<open>repr()\<close> of a string, or text that the interpreter or the operating system
  supplies.
\<close>

datatype frag =
    Text string
  | Code codepoint
  | Number int
  | PathText str
  | Quoted str
  | SysText

text \<open>
  The exceptions that can reach \<^verbatim>\<open>main\<close>, each with its message.
  \<^verbatim>\<open>UnicodeDecodeError\<close> is a subclass of \<^verbatim>\<open>ValueError\<close>; \<open>OSError\<close> stands for
  the operating-system errors other than \<^verbatim>\<open>FileNotFoundError\<close> (a directory, a file
  without read permission, a name that is too long).
\<close>

datatype exn =
    FileNotFoundError "frag list"
  | ValueError "frag list"
  | UnicodeDecodeError
  | OSError

definition SummaryNotFound :: exn where
  "SummaryNotFound = ValueError [Text ''Unity test summary not found in output'']"

section \<open>Conversion to integers\<close>

text \<open>
  \<^verbatim>\<open>int(s)\<close> on a non-empty sequence of decimal digits is its value in base 10,
  computed digit by digit from the left; Python integers are unbounded. The conversion
  itself is limited: the interpreter refuses a sequence of more than 4300 digits (the
  default of \<^verbatim>\<open>sys.get_int_max_str_digits()\<close>) with a \<^verbatim>\<open>ValueError\<close>. The source
  passes nothing but digit sequences to \<^verbatim>\<open>int\<close>; on every other string the model
  answers \<^verbatim>\<open>ValueError\<close>. (The interpreter also accepts a sign, surrounding
  whitespace and single underscores between digits, which is not modelled.)
\<close>

definition int_max_str_digits :: nat where
  "int_max_str_digits = 4300"

definition int_limit_error :: "nat \<Rightarrow> exn" where
  "int_limit_error n =
     ValueError
       [Text ''Exceeds the limit (4300 digits) for integer string conversion: value has '',
        Number (int n),
        Text '' digits; use sys.set_int_max_str_digits() to increase the limit'']"

fun digits_value :: "tables \<Rightarrow> int \<Rightarrow> str \<Rightarrow> int option" where
  "digits_value T a [] = Some a"
| "digits_value T a (c # cs) =
     (case todecimal T c of
        None \<Rightarrow> None
      | Some d \<Rightarrow> digits_value T (10 * a + int d) cs)"

definition py_int :: "tables \<Rightarrow> str \<Rightarrow> exn + int" where
  "py_int T s =
     (case (if s = [] then None else digits_value T 0 s) of
        None \<Rightarrow> Inl (ValueError [Text ''invalid literal for int() with base 10: '', Quoted s])
      | Some v \<Rightarrow>
          if int_max_str_digits < length s then Inl (int_limit_error (length s)) else Inr v)"

section \<open>The summary extractor\<close>

text \<open>
  Lines 37 to 47 of \<^verbatim>\<open>parse_unity_output\<close>: what the function does with the content
  once the file is read. All matches are collected; none raises \<^verbatim>\<open>ValueError\<close>;
  otherwise the last one is unpacked into three strings and each is converted.
  Unpacking a tuple of another length raises \<^verbatim>\<open>ValueError\<close> in Python.
\<close>

definition extract_summary :: "tables \<Rightarrow> str \<Rightarrow> exn + (int \<times> int \<times> int)" where
  "extract_summary T content =
     (let matches = re_findall T pattern content in
      if matches = [] then Inl SummaryNotFound
      else
        (case last matches of
           [tests, failures, ignored] \<Rightarrow>
             (case py_int T tests of
                Inl e \<Rightarrow> Inl e
              | Inr t \<Rightarrow>
                  (case py_int T failures of
                     Inl e \<Rightarrow> Inl e
                   | Inr f \<Rightarrow>
                       (case py_int T ignored of
                          Inl e \<Rightarrow> Inl e
                        | Inr i \<Rightarrow> Inr (t, f, i))))
         | _ \<Rightarrow> Inl (ValueError [Text ''not enough values to unpack''])))"

section \<open>Files\<close>

text \<open>
  What the script can find at a path. \<open>Absent\<close>: the lookup reports that nothing is
  there, and \<^verbatim>\<open>exists()\<close> is false. \<open>NoStat\<close>: the lookup itself fails (a name that
  is too long, a directory that may not be searched) and \<^verbatim>\<open>exists()\<close> raises the
  \<^verbatim>\<open>OSError\<close>; interpreters whose \<^verbatim>\<open>exists()\<close> answers false there have no such
  paths. \<open>Unreadable\<close>: something exists and cannot be read (a directory, a file
  without read permission). \<open>Undecodable\<close>: a file whose bytes are not text in the
  expected encoding. \<open>Content\<close>: a file with a text content, which is the string that
  \<^verbatim>\<open>read_text\<close> returns (decoded, line endings translated).

  The world is the file system, the file accesses made so far, and whether the encoding
  of standard output has the two symbols of the banner lines (U+2705 and U+274C).
\<close>

datatype file_state = Absent | NoStat | Unreadable | Undecodable | Content str

datatype fsop = Stat str | Read str

record world =
  files :: "str \<Rightarrow> file_state"
  accesses :: "fsop list"
  stdout_unicode :: bool

definition path_exists :: "world \<Rightarrow> str \<Rightarrow> (exn + bool) \<times> world" where
  "path_exists w p =
     ((case files w p of
         Absent \<Rightarrow> Inr False
       | NoStat \<Rightarrow> Inl OSError
       | _ \<Rightarrow> Inr True),
      w\<lparr>accesses := accesses w @ [Stat p]\<rparr>)"

definition read_text :: "world \<Rightarrow> str \<Rightarrow> (exn + str) \<times> world" where
  "read_text w p =
     ((case files w p of
         Absent \<Rightarrow> Inl (FileNotFoundError [SysText])
       | NoStat \<Rightarrow> Inl OSError
       | Unreadable \<Rightarrow> Inl OSError
       | Undecodable \<Rightarrow> Inl UnicodeDecodeError
       | Content c \<Rightarrow> Inr c),
      w\<lparr>accesses := accesses w @ [Read p]\<rparr>)"

definition parse_unity_output ::
  "tables \<Rightarrow> world \<Rightarrow> str \<Rightarrow> (exn + (int \<times> int \<times> int)) \<times> world" where
  "parse_unity_output T w output_file =
     (let (ex, w1) = path_exists w output_file in
      case ex of
        Inl e \<Rightarrow> (Inl e, w1)
      | Inr found \<Rightarrow>
          if \<not> found
          then (Inl (FileNotFoundError [Text ''Output file not found: '', PathText output_file]),
                w1)
          else
            (let (r, w2) = read_text w1 output_file in
             case r of
               Inl e \<Rightarrow> (Inl e, w2)
             | Inr content \<Rightarrow> (extract_summary T content, w2)))"

section \<open>The command-line driver\<close>

text \<open>
  A run of the script ends with an exit code, having written lines to standard output
  and to standard error. \<^verbatim>\<open>sys.exit\<close> raises \<^verbatim>\<open>SystemExit\<close>, which neither
  \<^verbatim>\<open>except\<close> clause of \<^verbatim>\<open>main\<close> catches. An exception no clause catches leaves
  \<^verbatim>\<open>main\<close>: the interpreter writes a traceback to standard error and exits with 1.

  Standard error replaces what its encoding lacks and takes every line. Standard output
  is strict: the lines of the report are ASCII text and digits and are written, but the
  banner line starts with a symbol outside ASCII, and where the encoding of standard
  output lacks it, \<^verbatim>\<open>print\<close> raises \<^verbatim>\<open>UnicodeEncodeError\<close>. The banner is printed
  inside the \<^verbatim>\<open>try\<close>, and \<^verbatim>\<open>UnicodeEncodeError\<close> is a \<^verbatim>\<open>ValueError\<close>: the second
  \<^verbatim>\<open>except\<close> clause catches it, after the five lines of the report are out.
\<close>

record process =
  stdout :: "frag list list"
  stderr :: "frag list list"
  exit_code :: nat
  world_after :: world

definition report :: "int \<Rightarrow> int \<Rightarrow> int \<Rightarrow> frag list list" where
  "report tests failures ignored =
     [[Text ''Test Results:''],
      [Text ''  Total Tests: '', Number tests],
      [Text ''  Failures: '', Number failures],
      [Text ''  Ignored: '', Number ignored],
      []]"

definition hints :: "frag list list" where
  "hints =
     [[Code 10, Text ''This usually means:''],
      [Text ''  - Tests didn't complete (QEMU timeout/crash)''],
      [Text ''  - Unity framework wasn't properly initialized''],
      [Text ''  - Output was truncated'']]"

definition traceback :: "exn \<Rightarrow> frag list list" where
  "traceback e = [[Text ''Traceback (most recent call last):''], [SysText]]"

definition main :: "tables \<Rightarrow> str list \<Rightarrow> world \<Rightarrow> process" where
  "main T argv w =
     (if length argv \<noteq> 2
      then \<lparr>stdout = [], stderr = [[Text ''Usage: parse_unity_output.py <qemu_output.log>'']],
            exit_code = 2, world_after = w\<rparr>
      else
        (let output_file = argv ! 1;
             (r, w') = parse_unity_output T w output_file
         in case r of
              Inr (tests, failures, ignored) \<Rightarrow>
                if \<not> stdout_unicode w
                then \<lparr>stdout = report tests failures ignored,
                      stderr = [Text ''Error: '', SysText] # hints, exit_code = 1,
                      world_after = w'\<rparr>
                else if failures = 0
                then \<lparr>stdout = report tests failures ignored @ [[Code 9989, Text '' All tests passed!'']],
                      stderr = [], exit_code = 0, world_after = w'\<rparr>
                else \<lparr>stdout = report tests failures ignored @
                               [[Code 10060, Text '' '', Number failures, Text '' test(s) failed'']],
                      stderr = [], exit_code = 1, world_after = w'\<rparr>
            | Inl (FileNotFoundError m) \<Rightarrow>
                \<lparr>stdout = [], stderr = [Text ''Error: '' # m], exit_code = 2, world_after = w'\<rparr>
            | Inl (ValueError m) \<Rightarrow>
                \<lparr>stdout = [], stderr = (Text ''Error: '' # m) # hints, exit_code = 1, world_after = w'\<rparr>
            | Inl UnicodeDecodeError \<Rightarrow>
                \<lparr>stdout = [], stderr = [Text ''Error: '', SysText] # hints, exit_code = 1,
                  world_after = w'\<rparr>
            | Inl OSError \<Rightarrow>
                \<lparr>stdout = [], stderr = traceback OSError, exit_code = 1, world_after = w'\<rparr>))"

section \<open>The language of a pattern\<close>

text \<open>
  Read declaratively, a pattern describes a set of strings: \<open>accepts T p u gs\<close> says that
  the whole of \<open>u\<close> has the form of \<open>p\<close>, with the captured parts \<open>gs\<close>. The
  backtracking matcher finds a match at the start of a string exactly when some prefix
  of the string is in this set.
\<close>

fun accepts :: "tables \<Rightarrow> item list \<Rightarrow> str \<Rightarrow> str list \<Rightarrow> bool" where
  "accepts T [] u gs = (u = [] \<and> gs = [])"
| "accepts T (Lit l # p) u gs = (\<exists>v. u = l @ v \<and> accepts T p v gs)"
| "accepts T (Plus cl # p) u gs =
     (\<exists>r v. r \<noteq> [] \<and> list_all (in_class T cl) r \<and> u = r @ v \<and> accepts T p v gs)"
| "accepts T (GroupPlus cl # p) u gs =
     (\<exists>r v gs'. r \<noteq> [] \<and> list_all (in_class T cl) r \<and> u = r @ v \<and> gs = r # gs' \<and>
        accepts T p v gs')"

lemma take_run:
  "j \<le> length (takeWhile P s) \<Longrightarrow> list_all P (take j s)"
proof (induction s arbitrary: j)
  case Nil
  then show ?case by simp
next
  case (Cons x xs)
  show ?case
  proof (cases j)
    case 0
    then show ?thesis by simp
  next
    case (Suc m)
    with Cons.prems have "P x" "m \<le> length (takeWhile P xs)"
      by (auto split: if_splits)
    with Cons.IH [of m] Suc show ?thesis by simp
  qed
qed

lemma run_le_takeWhile:
  "list_all P r \<Longrightarrow> length r \<le> length (takeWhile P (r @ t))"
  by (induction r) auto

lemma plus_sound:
  assumes fs: "first_some (\<lambda>k. map_option (g k) (match_here T p (drop k s)))
                 (length (takeWhile (in_class T cl) s)) = Some res"
  obtains j gs' n' where "0 < j" "j \<le> length s" "list_all (in_class T cl) (take j s)"
    "match_here T p (drop j s) = Some (gs', n')" "res = g j (gs', n')"
proof -
  from first_some_SomeD [OF fs] obtain j where
    j: "0 < j" "j \<le> length (takeWhile (in_class T cl) s)"
    and m: "map_option (g j) (match_here T p (drop j s)) = Some res"
    by blast
  from m obtain y where y: "match_here T p (drop j s) = Some y" "g j y = res"
    unfolding map_option_eq_Some by blast
  obtain gs' n' where "y = (gs', n')" by (cases y)
  with y have m': "match_here T p (drop j s) = Some (gs', n')" "res = g j (gs', n')"
    by simp_all
  from j(2) have le: "j \<le> length s"
    using length_takeWhile_le [of "in_class T cl" s] by simp
  show thesis by (rule that [OF j(1) le take_run [OF j(2)] m'])
qed

lemma match_here_sound:
  "match_here T p s = Some (gs, n) \<Longrightarrow> accepts T p (take n s) gs"
proof (induction p arbitrary: s gs n)
  case Nil
  then show ?case by simp
next
  case (Cons x p)
  show ?case
  proof (cases x)
    case (Lit l)
    with Cons.prems obtain n' where
      l: "take (length l) s = l" and
      m: "match_here T p (drop (length l) s) = Some (gs, n')" and
      n: "n = length l + n'"
      by (auto split: if_splits)
    from Cons.IH [OF m] have "accepts T p (take n' (drop (length l) s)) gs" .
    moreover have "take n s = l @ take n' (drop (length l) s)"
      using l n by (simp add: take_add)
    ultimately have "\<exists>v. take n s = l @ v \<and> accepts T p v gs" by blast
    then show ?thesis unfolding Lit by (simp only: accepts.simps)
  next
    case (Plus cl)
    with Cons.prems have
      "first_some (\<lambda>k. map_option (\<lambda>(gs, n). (gs, k + n)) (match_here T p (drop k s)))
         (length (takeWhile (in_class T cl) s)) = Some (gs, n)"
      by simp
    then obtain j gs' n' where j: "0 < j" "j \<le> length s" "list_all (in_class T cl) (take j s)"
      and m: "match_here T p (drop j s) = Some (gs', n')"
      and r: "(gs, n) = (case (gs', n') of (gs, n) \<Rightarrow> (gs, j + n))"
      by (rule plus_sound [where g = "\<lambda>k (gs, n). (gs, k + n)"])
    from r have eq: "gs = gs'" "n = j + n'" by simp_all
    from Cons.IH [OF m] have "accepts T p (take n' (drop j s)) gs'" .
    moreover have "take n s = take j s @ take n' (drop j s)"
      using eq by (simp add: take_add)
    moreover have "take j s \<noteq> []" using j by auto
    ultimately have "\<exists>r v. r \<noteq> [] \<and> list_all (in_class T cl) r \<and> take n s = r @ v \<and>
        accepts T p v gs"
      using j(3) eq(1) by blast
    then show ?thesis unfolding Plus by (simp only: accepts.simps)
  next
    case (GroupPlus cl)
    with Cons.prems have
      "first_some (\<lambda>k. map_option (\<lambda>(gs, n). (take k s # gs, k + n)) (match_here T p (drop k s)))
         (length (takeWhile (in_class T cl) s)) = Some (gs, n)"
      by simp
    then obtain j gs' n' where j: "0 < j" "j \<le> length s" "list_all (in_class T cl) (take j s)"
      and m: "match_here T p (drop j s) = Some (gs', n')"
      and r: "(gs, n) = (case (gs', n') of (gs, n) \<Rightarrow> (take j s # gs, j + n))"
      by (rule plus_sound [where g = "\<lambda>k (gs, n). (take k s # gs, k + n)"])
    from r have eq: "gs = take j s # gs'" "n = j + n'" by simp_all
    from Cons.IH [OF m] have "accepts T p (take n' (drop j s)) gs'" .
    moreover have "take n s = take j s @ take n' (drop j s)"
      using eq by (simp add: take_add)
    moreover have "take j s \<noteq> []" using j by auto
    ultimately have "\<exists>r v gs'. r \<noteq> [] \<and> list_all (in_class T cl) r \<and> take n s = r @ v \<and>
        gs = r # gs' \<and> accepts T p v gs'"
      using j(3) eq(1) by blast
    then show ?thesis unfolding GroupPlus by (simp only: accepts.simps)
  qed
qed

lemma plus_complete:
  assumes r: "r \<noteq> []" "list_all (in_class T cl) r"
    and m: "match_here T p (v @ t) \<noteq> None"
  shows "first_some (\<lambda>k. map_option (g k) (match_here T p (drop k (r @ v @ t))))
           (length (takeWhile (in_class T cl) (r @ v @ t))) \<noteq> None"
proof
  let ?f = "\<lambda>k. map_option (g k) (match_here T p (drop k (r @ v @ t)))"
  let ?K = "length (takeWhile (in_class T cl) (r @ v @ t))"
  assume "first_some ?f ?K = None"
  then have all: "\<And>j. 0 < j \<Longrightarrow> j \<le> ?K \<Longrightarrow> ?f j = None"
    by (simp only: first_some_None_iff)
  have pos: "0 < length r" using r(1) by simp
  have le: "length r \<le> ?K"
    using r(2) by (rule run_le_takeWhile)
  have "?f (length r) = None" using pos le by (rule all)
  then show False using m by simp
qed

lemma match_here_complete:
  "accepts T p u gs \<Longrightarrow> match_here T p (u @ t) \<noteq> None"
proof (induction p arbitrary: u gs)
  case Nil
  then show ?case by simp
next
  case (Cons x p)
  show ?case
  proof (cases x)
    case (Lit l)
    with Cons.prems obtain v where v: "u = l @ v" "accepts T p v gs" by auto
    from Cons.IH [OF v(2)] have "match_here T p (v @ t) \<noteq> None" .
    then show ?thesis using Lit v(1) by simp
  next
    case (Plus cl)
    with Cons.prems obtain r v where
      v: "r \<noteq> []" "list_all (in_class T cl) r" "u = r @ v" "accepts T p v gs" by auto
    from Cons.IH [OF v(4)] have "match_here T p (v @ t) \<noteq> None" .
    from plus_complete [OF v(1) v(2) this, of "\<lambda>k (gs, n). (gs, k + n)"]
    have "match_here T (Plus cl # p) (r @ v @ t) \<noteq> None"
      unfolding match_here.simps .
    then show ?thesis unfolding Plus v(3) append_assoc .
  next
    case (GroupPlus cl)
    with Cons.prems obtain r v gs' where
      v: "r \<noteq> []" "list_all (in_class T cl) r" "u = r @ v" "accepts T p v gs'" by auto
    from Cons.IH [OF v(4)] have "match_here T p (v @ t) \<noteq> None" .
    from plus_complete [OF v(1) v(2) this, of "\<lambda>k (gs, n). (take k (r @ v @ t) # gs, k + n)"]
    have "match_here T (GroupPlus cl # p) (r @ v @ t) \<noteq> None"
      unfolding match_here.simps .
    then show ?thesis unfolding GroupPlus v(3) append_assoc .
  qed
qed

section \<open>Properties of the scan\<close>

declare finditer.simps [simp del]

lemma finditer_None:
  "match_here T p s = None \<Longrightarrow>
     finditer T p pos s = (case s of [] \<Rightarrow> [] | _ # xs \<Rightarrow> finditer T p (Suc pos) xs)"
  by (subst finditer.simps) simp

lemma finditer_Some:
  "match_here T p s = Some (gs, n) \<Longrightarrow>
     finditer T p pos s =
       (pos, pos + n, gs) #
         (if n = 0 then (case s of [] \<Rightarrow> [] | _ # xs \<Rightarrow> finditer T p (Suc pos) xs)
          else finditer T p (pos + n) (drop n s))"
  by (subst finditer.simps) simp

lemma finditer_mem:
  "(st, en, gs) \<in> set (finditer T p pos s) \<Longrightarrow>
     pos \<le> st \<and> st \<le> pos + length s \<and> st \<le> en \<and>
     match_here T p (drop (st - pos) s) = Some (gs, en - st)"
proof (induction T p pos s rule: finditer.induct)
  case (1 T p pos s)
  have step: "pos \<le> st \<and> st \<le> pos + length s \<and> st \<le> en \<and>
      match_here T p (drop (st - pos) s) = Some (gs, en - st)"
    if mem: "(st, en, gs) \<in> set (finditer T p (Suc pos) xs)" and s: "s = x # xs"
      and ih: "(st, en, gs) \<in> set (finditer T p (Suc pos) xs) \<Longrightarrow>
        Suc pos \<le> st \<and> st \<le> Suc pos + length xs \<and> st \<le> en \<and>
        match_here T p (drop (st - Suc pos) xs) = Some (gs, en - st)"
    for x xs
  proof -
    from ih [OF mem] have f: "Suc pos \<le> st" "st \<le> Suc pos + length xs" "st \<le> en"
      "match_here T p (drop (st - Suc pos) xs) = Some (gs, en - st)" by simp_all
    from f(1) have "st - pos = Suc (st - Suc pos)" by simp
    then have "drop (st - pos) s = drop (st - Suc pos) xs" using s by simp
    with f s show ?thesis by simp
  qed
  show ?case
  proof (cases "match_here T p s")
    case None
    show ?thesis
    proof (cases s)
      case Nil
      with None "1.prems" show ?thesis by (simp add: finditer_None)
    next
      case (Cons x xs)
      with None "1.prems" have mem: "(st, en, gs) \<in> set (finditer T p (Suc pos) xs)"
        by (simp add: finditer_None)
      from mem Cons "1.IH"(1) [OF None Cons] show ?thesis by (rule step)
    qed
  next
    case (Some a)
    obtain gs0 n where a: "a = (gs0, n)" by (cases a)
    with Some have m: "match_here T p s = Some (gs0, n)" by simp
    note eq = finditer_Some [OF m, of pos]
    show ?thesis
    proof (cases "(st, en, gs) = (pos, pos + n, gs0)")
      case True
      with m show ?thesis by simp
    next
      case False
      show ?thesis
      proof (cases "n = 0")
        case True
        show ?thesis
        proof (cases s)
          case Nil
          with True False "1.prems" eq show ?thesis by simp
        next
          case (Cons x xs)
          with True False "1.prems" eq have mem: "(st, en, gs) \<in> set (finditer T p (Suc pos) xs)"
            by auto
          from mem Cons "1.IH"(2) [OF Some a [symmetric] True Cons] show ?thesis by (rule step)
        qed
      next
        case n: False
        with False "1.prems" eq have mem: "(st, en, gs) \<in> set (finditer T p (pos + n) (drop n s))"
          by auto
        from "1.IH"(3) [OF Some a [symmetric] n mem]
        have f: "pos + n \<le> st" "st \<le> pos + n + length (drop n s)" "st \<le> en"
          "match_here T p (drop (st - (pos + n)) (drop n s)) = Some (gs, en - st)" by blast+
        from match_here_le [OF m] have nl: "n \<le> length s" .
        from f(1) have "st - (pos + n) + n = st - pos" by simp
        then have "drop (st - (pos + n)) (drop n s) = drop (st - pos) s" by simp
        with f nl show ?thesis by simp
      qed
    qed
  qed
qed

lemma finditer_starts:
  "m \<in> set (finditer T p pos s) \<Longrightarrow> pos \<le> fst m"
  using finditer_mem [of "fst m" "fst (snd m)" "snd (snd m)" T p pos s] by simp

text \<open>
  The order of the matches of a scan: \<open>before a b\<close> when \<open>a\<close> starts before \<open>b\<close>
  and has ended where \<open>b\<close> starts.
\<close>

definition before :: "nat \<times> nat \<times> str list \<Rightarrow> nat \<times> nat \<times> str list \<Rightarrow> bool" where
  "before a b = (fst a < fst b \<and> fst (snd a) \<le> fst b)"

lemma finditer_sorted:
  "sorted_wrt before (finditer T p pos s)"
proof (induction T p pos s rule: finditer.induct)
  case (1 T p pos s)
  show ?case
  proof (cases "match_here T p s")
    case None
    then show ?thesis using "1.IH"(1) [OF None]
      by (cases s) (simp_all add: finditer_None)
  next
    case (Some a)
    obtain gs0 n where a: "a = (gs0, n)" by (cases a)
    with Some have m: "match_here T p s = Some (gs0, n)" by simp
    note eq = finditer_Some [OF m, of pos]
    show ?thesis
    proof (cases "n = 0")
      case True
      show ?thesis
      proof (cases s)
        case Nil
        with True eq show ?thesis by simp
      next
        case (Cons x xs)
        have "\<forall>b \<in> set (finditer T p (Suc pos) xs). before (pos, pos + n, gs0) b"
          using True by (auto simp: before_def dest: finditer_starts)
        with "1.IH"(2) [OF Some a [symmetric] True Cons] True Cons eq show ?thesis by simp
      qed
    next
      case False
      have "\<forall>b \<in> set (finditer T p (pos + n) (drop n s)). before (pos, pos + n, gs0) b"
        using False by (auto simp: before_def dest: finditer_starts)
      with "1.IH"(3) [OF Some a [symmetric] False] False eq show ?thesis by simp
    qed
  qed
qed

lemma finditer_Nil_iff:
  "finditer T p pos s = [] \<longleftrightarrow> (\<forall>i \<le> length s. match_here T p (drop i s) = None)"
proof (induction T p pos s rule: finditer.induct)
  case (1 T p pos s)
  show ?case
  proof (cases "match_here T p s")
    case None
    show ?thesis
    proof (cases s)
      case Nil
      with None show ?thesis by (simp add: finditer_None)
    next
      case (Cons x xs)
      have "(\<forall>i \<le> length s. match_here T p (drop i s) = None) \<longleftrightarrow>
            (\<forall>i \<le> length xs. match_here T p (drop i xs) = None)"
      proof
        assume l: "\<forall>i \<le> length s. match_here T p (drop i s) = None"
        show "\<forall>i \<le> length xs. match_here T p (drop i xs) = None"
        proof (intro allI impI)
          fix i assume "i \<le> length xs"
          with Cons have "Suc i \<le> length s" by simp
          with l have "match_here T p (drop (Suc i) s) = None" by blast
          with Cons show "match_here T p (drop i xs) = None" by simp
        qed
      next
        assume r: "\<forall>i \<le> length xs. match_here T p (drop i xs) = None"
        show "\<forall>i \<le> length s. match_here T p (drop i s) = None"
        proof (intro allI impI)
          fix i assume i: "i \<le> length s"
          show "match_here T p (drop i s) = None"
          proof (cases i)
            case 0
            with None show ?thesis by simp
          next
            case (Suc k)
            with i Cons r show ?thesis by simp
          qed
        qed
      qed
      with "1.IH"(1) [OF None Cons] None Cons show ?thesis
        by (simp add: finditer_None)
    qed
  next
    case (Some a)
    obtain gs0 n where a: "a = (gs0, n)" by (cases a)
    with Some have m: "match_here T p s = Some (gs0, n)" by simp
    have "finditer T p pos s \<noteq> []" by (simp add: finditer_Some [OF m])
    moreover have "\<not> (\<forall>i \<le> length s. match_here T p (drop i s) = None)"
      using m by (auto intro: exI [of _ 0])
    ultimately show ?thesis by simp
  qed
qed


section \<open>The summary line, as the specification words it\<close>

text \<open>
  The specification describes an occurrence as text of the shape
  \<^verbatim>\<open><integer> Tests <integer> Failures <integer> Ignored\<close>, where an integer is one
  or more decimal digits and a separator is a run of one or more whitespace characters.
  \<open>summary_text T u d1 d2 d3\<close> says that \<open>u\<close> is such a text with the three digit
  sequences \<open>d1\<close>, \<open>d2\<close> and \<open>d3\<close>.
\<close>

definition digits_run :: "tables \<Rightarrow> str \<Rightarrow> bool" where
  "digits_run T d = (d \<noteq> [] \<and> list_all (\<lambda>c. todecimal T c \<noteq> None) d)"

definition space_run :: "tables \<Rightarrow> str \<Rightarrow> bool" where
  "space_run T w = (w \<noteq> [] \<and> list_all (isspace T) w)"

definition summary_text :: "tables \<Rightarrow> str \<Rightarrow> str \<Rightarrow> str \<Rightarrow> str \<Rightarrow> bool" where
  "summary_text T u d1 d2 d3 =
     (\<exists>w1 w2 w3 w4 w5.
        digits_run T d1 \<and> digits_run T d2 \<and> digits_run T d3 \<and>
        space_run T w1 \<and> space_run T w2 \<and> space_run T w3 \<and> space_run T w4 \<and> space_run T w5 \<and>
        u = d1 @ w1 @ lit ''Tests'' @ w2 @ d2 @ w3 @ lit ''Failures'' @ w4 @ d3 @ w5 @ lit ''Ignored'')"

lemma in_class_Digit: "in_class T Digit = (\<lambda>c. todecimal T c \<noteq> None)"
  by (rule ext) simp

lemma in_class_Space: "in_class T Space = isspace T"
  by (rule ext) simp

lemma accepts_LitI: "accepts T p v gs \<Longrightarrow> accepts T (Lit l # p) (l @ v) gs"
  by simp

lemma accepts_PlusI:
  "r \<noteq> [] \<Longrightarrow> list_all (in_class T cl) r \<Longrightarrow> accepts T p v gs \<Longrightarrow>
     accepts T (Plus cl # p) (r @ v) gs"
  unfolding accepts.simps by (intro exI [of _ r] exI [of _ v] conjI) simp_all

lemma accepts_GroupPlusI:
  "r \<noteq> [] \<Longrightarrow> list_all (in_class T cl) r \<Longrightarrow> accepts T p v gs \<Longrightarrow>
     accepts T (GroupPlus cl # p) (r @ v) (r # gs)"
  unfolding accepts.simps by (intro exI [of _ r] exI [of _ v] exI [of _ gs] conjI) simp_all

lemma accepts_LitE:
  assumes "accepts T (Lit l # p) u gs"
  obtains v where "u = l @ v" "accepts T p v gs"
  using assms by auto

lemma accepts_PlusE:
  assumes "accepts T (Plus cl # p) u gs"
  obtains r v where "r \<noteq> []" "list_all (in_class T cl) r" "u = r @ v" "accepts T p v gs"
  using assms by auto

lemma accepts_GroupPlusE:
  assumes "accepts T (GroupPlus cl # p) u gs"
  obtains r v gs' where "r \<noteq> []" "list_all (in_class T cl) r" "u = r @ v" "gs = r # gs'"
    "accepts T p v gs'"
  using assms by auto

lemma accepts_pattern_summary:
  assumes "accepts T pattern u gs"
  shows "\<exists>d1 d2 d3. gs = [d1, d2, d3] \<and> summary_text T u d1 d2 d3"
proof -
  from assms [unfolded pattern_def] obtain d1 v1 g1 where
    d1: "d1 \<noteq> []" "list_all (in_class T Digit) d1" and u1: "u = d1 @ v1" and g1: "gs = d1 # g1"
    and a1: "accepts T [Plus Space, Lit (lit ''Tests''), Plus Space, GroupPlus Digit, Plus Space,
        Lit (lit ''Failures''), Plus Space, GroupPlus Digit, Plus Space, Lit (lit ''Ignored'')] v1 g1"
    by (rule accepts_GroupPlusE)
  from a1 obtain w1 v2 where
    w1: "w1 \<noteq> []" "list_all (in_class T Space) w1" and u2: "v1 = w1 @ v2"
    and a2: "accepts T [Lit (lit ''Tests''), Plus Space, GroupPlus Digit, Plus Space,
        Lit (lit ''Failures''), Plus Space, GroupPlus Digit, Plus Space, Lit (lit ''Ignored'')] v2 g1"
    by (rule accepts_PlusE)
  from a2 obtain v3 where u3: "v2 = lit ''Tests'' @ v3"
    and a3: "accepts T [Plus Space, GroupPlus Digit, Plus Space,
        Lit (lit ''Failures''), Plus Space, GroupPlus Digit, Plus Space, Lit (lit ''Ignored'')] v3 g1"
    by (rule accepts_LitE)
  from a3 obtain w2 v4 where
    w2: "w2 \<noteq> []" "list_all (in_class T Space) w2" and u4: "v3 = w2 @ v4"
    and a4: "accepts T [GroupPlus Digit, Plus Space,
        Lit (lit ''Failures''), Plus Space, GroupPlus Digit, Plus Space, Lit (lit ''Ignored'')] v4 g1"
    by (rule accepts_PlusE)
  from a4 obtain d2 v5 g2 where
    d2: "d2 \<noteq> []" "list_all (in_class T Digit) d2" and u5: "v4 = d2 @ v5" and g2: "g1 = d2 # g2"
    and a5: "accepts T [Plus Space,
        Lit (lit ''Failures''), Plus Space, GroupPlus Digit, Plus Space, Lit (lit ''Ignored'')] v5 g2"
    by (rule accepts_GroupPlusE)
  from a5 obtain w3 v6 where
    w3: "w3 \<noteq> []" "list_all (in_class T Space) w3" and u6: "v5 = w3 @ v6"
    and a6: "accepts T [Lit (lit ''Failures''), Plus Space, GroupPlus Digit, Plus Space,
        Lit (lit ''Ignored'')] v6 g2"
    by (rule accepts_PlusE)
  from a6 obtain v7 where u7: "v6 = lit ''Failures'' @ v7"
    and a7: "accepts T [Plus Space, GroupPlus Digit, Plus Space, Lit (lit ''Ignored'')] v7 g2"
    by (rule accepts_LitE)
  from a7 obtain w4 v8 where
    w4: "w4 \<noteq> []" "list_all (in_class T Space) w4" and u8: "v7 = w4 @ v8"
    and a8: "accepts T [GroupPlus Digit, Plus Space, Lit (lit ''Ignored'')] v8 g2"
    by (rule accepts_PlusE)
  from a8 obtain d3 v9 g3 where
    d3: "d3 \<noteq> []" "list_all (in_class T Digit) d3" and u9: "v8 = d3 @ v9" and g3: "g2 = d3 # g3"
    and a9: "accepts T [Plus Space, Lit (lit ''Ignored'')] v9 g3"
    by (rule accepts_GroupPlusE)
  from a9 obtain w5 v10 where
    w5: "w5 \<noteq> []" "list_all (in_class T Space) w5" and u10: "v9 = w5 @ v10"
    and a10: "accepts T [Lit (lit ''Ignored'')] v10 g3"
    by (rule accepts_PlusE)
  from a10 obtain v11 where u11: "v10 = lit ''Ignored'' @ v11" and a11: "accepts T [] v11 g3"
    by (rule accepts_LitE)
  from a11 have e: "v11 = []" "g3 = []" by simp_all
  have gs: "gs = [d1, d2, d3]" by (simp only: g1 g2 g3 e)
  have u: "u = d1 @ w1 @ lit ''Tests'' @ w2 @ d2 @ w3 @ lit ''Failures'' @ w4 @ d3 @ w5 @ lit ''Ignored''"
    by (simp only: u1 u2 u3 u4 u5 u6 u7 u8 u9 u10 u11 e append_Nil2)
  have "digits_run T d1" "digits_run T d2" "digits_run T d3"
    using d1 d2 d3 by (simp_all add: digits_run_def in_class_Digit)
  moreover have "space_run T w1" "space_run T w2" "space_run T w3" "space_run T w4" "space_run T w5"
    using w1 w2 w3 w4 w5 by (simp_all add: space_run_def in_class_Space)
  ultimately have "summary_text T u d1 d2 d3"
    unfolding summary_text_def using u
    by (intro exI [of _ w1] exI [of _ w2] exI [of _ w3] exI [of _ w4] exI [of _ w5] conjI)
  with gs show ?thesis by (intro exI conjI)
qed

lemma summary_accepts_pattern:
  assumes "summary_text T u d1 d2 d3"
  shows "accepts T pattern u [d1, d2, d3]"
proof -
  from assms obtain w1 w2 w3 w4 w5 where
    dr: "digits_run T d1" "digits_run T d2" "digits_run T d3" and
    sr: "space_run T w1" "space_run T w2" "space_run T w3" "space_run T w4" "space_run T w5" and
    u0: "u = d1 @ w1 @ lit ''Tests'' @ w2 @ d2 @ w3 @ lit ''Failures'' @ w4 @ d3 @ w5 @ lit ''Ignored''"
    unfolding summary_text_def by blast
  from dr have
    d: "d1 \<noteq> []" "list_all (in_class T Digit) d1"
       "d2 \<noteq> []" "list_all (in_class T Digit) d2"
       "d3 \<noteq> []" "list_all (in_class T Digit) d3"
    by (simp_all add: digits_run_def in_class_Digit)
  from sr have
    w: "w1 \<noteq> []" "list_all (in_class T Space) w1" "w2 \<noteq> []" "list_all (in_class T Space) w2"
       "w3 \<noteq> []" "list_all (in_class T Space) w3" "w4 \<noteq> []" "list_all (in_class T Space) w4"
       "w5 \<noteq> []" "list_all (in_class T Space) w5"
    by (simp_all add: space_run_def in_class_Space)
  from u0 have
    u: "u = d1 @ w1 @ lit ''Tests'' @ w2 @ d2 @ w3 @ lit ''Failures'' @ w4 @ d3 @ w5 @ lit ''Ignored'' @ []"
    by simp
  have "accepts T [] [] []" by simp
  then have "accepts T [Lit (lit ''Ignored'')] (lit ''Ignored'' @ []) []" by (rule accepts_LitI)
  then have "accepts T [Plus Space, Lit (lit ''Ignored'')] (w5 @ lit ''Ignored'' @ []) []"
    by (rule accepts_PlusI [OF w(9,10)])
  then have "accepts T [GroupPlus Digit, Plus Space, Lit (lit ''Ignored'')]
      (d3 @ w5 @ lit ''Ignored'' @ []) [d3]"
    by (rule accepts_GroupPlusI [OF d(5,6)])
  then have "accepts T [Plus Space, GroupPlus Digit, Plus Space, Lit (lit ''Ignored'')]
      (w4 @ d3 @ w5 @ lit ''Ignored'' @ []) [d3]"
    by (rule accepts_PlusI [OF w(7,8)])
  then have "accepts T [Lit (lit ''Failures''), Plus Space, GroupPlus Digit, Plus Space,
        Lit (lit ''Ignored'')]
      (lit ''Failures'' @ w4 @ d3 @ w5 @ lit ''Ignored'' @ []) [d3]"
    by (rule accepts_LitI)
  then have "accepts T [Plus Space, Lit (lit ''Failures''), Plus Space, GroupPlus Digit, Plus Space,
        Lit (lit ''Ignored'')]
      (w3 @ lit ''Failures'' @ w4 @ d3 @ w5 @ lit ''Ignored'' @ []) [d3]"
    by (rule accepts_PlusI [OF w(5,6)])
  then have "accepts T [GroupPlus Digit, Plus Space, Lit (lit ''Failures''), Plus Space,
        GroupPlus Digit, Plus Space, Lit (lit ''Ignored'')]
      (d2 @ w3 @ lit ''Failures'' @ w4 @ d3 @ w5 @ lit ''Ignored'' @ []) [d2, d3]"
    by (rule accepts_GroupPlusI [OF d(3,4)])
  then have "accepts T [Plus Space, GroupPlus Digit, Plus Space, Lit (lit ''Failures''), Plus Space,
        GroupPlus Digit, Plus Space, Lit (lit ''Ignored'')]
      (w2 @ d2 @ w3 @ lit ''Failures'' @ w4 @ d3 @ w5 @ lit ''Ignored'' @ []) [d2, d3]"
    by (rule accepts_PlusI [OF w(3,4)])
  then have "accepts T [Lit (lit ''Tests''), Plus Space, GroupPlus Digit, Plus Space,
        Lit (lit ''Failures''), Plus Space, GroupPlus Digit, Plus Space, Lit (lit ''Ignored'')]
      (lit ''Tests'' @ w2 @ d2 @ w3 @ lit ''Failures'' @ w4 @ d3 @ w5 @ lit ''Ignored'' @ []) [d2, d3]"
    by (rule accepts_LitI)
  then have "accepts T [Plus Space, Lit (lit ''Tests''), Plus Space, GroupPlus Digit, Plus Space,
        Lit (lit ''Failures''), Plus Space, GroupPlus Digit, Plus Space, Lit (lit ''Ignored'')]
      (w1 @ lit ''Tests'' @ w2 @ d2 @ w3 @ lit ''Failures'' @ w4 @ d3 @ w5 @ lit ''Ignored'' @ [])
      [d2, d3]"
    by (rule accepts_PlusI [OF w(1,2)])
  then have "accepts T pattern
      (d1 @ w1 @ lit ''Tests'' @ w2 @ d2 @ w3 @ lit ''Failures'' @ w4 @ d3 @ w5 @ lit ''Ignored'' @ [])
      [d1, d2, d3]"
    unfolding pattern_def by (rule accepts_GroupPlusI [OF d(1,2)])
  with u show ?thesis by (simp only:)
qed

text \<open>
  The value of a digit sequence in base 10, as a sum of digits weighted by powers of ten.
\<close>

definition digit_of :: "tables \<Rightarrow> codepoint \<Rightarrow> int" where
  "digit_of T c = (case todecimal T c of None \<Rightarrow> 0 | Some d \<Rightarrow> int d)"

definition base10 :: "tables \<Rightarrow> str \<Rightarrow> int" where
  "base10 T ds = (\<Sum>i < length ds. digit_of T (ds ! i) * 10 ^ (length ds - 1 - i))"

lemma base10_Nil: "base10 T [] = 0"
  by (simp add: base10_def)

lemma base10_Cons: "base10 T (c # cs) = digit_of T c * 10 ^ length cs + base10 T cs"
proof -
  have "base10 T (c # cs) =
      (\<Sum>i < Suc (length cs). digit_of T ((c # cs) ! i) * 10 ^ (length cs - i))"
    by (simp add: base10_def)
  also have "\<dots> = digit_of T c * 10 ^ length cs +
      (\<Sum>i < length cs. digit_of T (cs ! i) * 10 ^ (length cs - Suc i))"
    by (simp only: sum.lessThan_Suc_shift nth_Cons_0 nth_Cons_Suc diff_zero)
  also have "\<dots> = digit_of T c * 10 ^ length cs + base10 T cs"
    by (simp add: base10_def)
  finally show ?thesis .
qed

lemma digits_value_base10:
  "list_all (\<lambda>c. todecimal T c \<noteq> None) ds \<Longrightarrow>
     digits_value T a ds = Some (a * 10 ^ length ds + base10 T ds)"
proof (induction ds arbitrary: a)
  case Nil
  then show ?case by (simp add: base10_Nil)
next
  case (Cons c cs)
  from Cons.prems obtain d where d: "todecimal T c = Some d" by auto
  from Cons.prems have "list_all (\<lambda>c. todecimal T c \<noteq> None) cs" by simp
  from Cons.IH [OF this, of "10 * a + int d"] d show ?case
    by (simp add: base10_Cons digit_of_def algebra_simps)
qed

lemma py_int_digits_run:
  "digits_run T d \<Longrightarrow> length d \<le> int_max_str_digits \<Longrightarrow> py_int T d = Inr (base10 T d)"
  by (simp add: py_int_def digits_run_def digits_value_base10)

lemma py_int_too_long:
  "digits_run T d \<Longrightarrow> int_max_str_digits < length d \<Longrightarrow>
     py_int T d = Inl (int_limit_error (length d))"
  by (simp add: py_int_def digits_run_def digits_value_base10)

text \<open>What the scan reports is an occurrence, located in the content.\<close>

definition occurrence_at :: "tables \<Rightarrow> str \<Rightarrow> nat \<Rightarrow> nat \<Rightarrow> str \<Rightarrow> str \<Rightarrow> str \<Rightarrow> bool" where
  "occurrence_at T content st en d1 d2 d3 =
     (st \<le> en \<and> en \<le> length content \<and>
      summary_text T (take (en - st) (drop st content)) d1 d2 d3)"

lemma match_here_pattern:
  assumes "match_here T pattern s = Some (gs, n)"
  shows "\<exists>d1 d2 d3. gs = [d1, d2, d3] \<and> summary_text T (take n s) d1 d2 d3"
  using assms by (intro accepts_pattern_summary match_here_sound)

lemma finditer_occurrence:
  assumes "(st, en, gs) \<in> set (finditer T pattern 0 content)"
  shows "\<exists>d1 d2 d3. gs = [d1, d2, d3] \<and> occurrence_at T content st en d1 d2 d3"
proof -
  from finditer_mem [OF assms] have
    le: "st \<le> length content" "st \<le> en" and
    m: "match_here T pattern (drop st content) = Some (gs, en - st)"
    by simp_all
  from match_here_le [OF m] le have "en \<le> length content" by simp
  with match_here_pattern [OF m] le show ?thesis
    by (auto simp: occurrence_at_def)
qed

lemma summary_text_digits:
  "summary_text T u d1 d2 d3 \<Longrightarrow> digits_run T d1 \<and> digits_run T d2 \<and> digits_run T d3"
  unfolding summary_text_def by blast

text \<open>The three conversions of the source, applied to the groups of the last match.\<close>

definition convert :: "tables \<Rightarrow> str \<Rightarrow> str \<Rightarrow> str \<Rightarrow> exn + (int \<times> int \<times> int)" where
  "convert T tests failures ignored =
     (case py_int T tests of
        Inl e \<Rightarrow> Inl e
      | Inr t \<Rightarrow>
          (case py_int T failures of
             Inl e \<Rightarrow> Inl e
           | Inr f \<Rightarrow>
               (case py_int T ignored of
                  Inl e \<Rightarrow> Inl e
                | Inr i \<Rightarrow> Inr (t, f, i))))"

lemma extract_summary_convert:
  assumes ms: "finditer T pattern 0 content \<noteq> []"
    and l: "last (finditer T pattern 0 content) = (st, en, [d1, d2, d3])"
  shows "extract_summary T content = convert T d1 d2 d3"
proof -
  have "last (re_findall T pattern content) = [d1, d2, d3]"
    using ms l by (simp add: re_findall_def last_map)
  moreover have "re_findall T pattern content \<noteq> []"
    using ms by (simp add: re_findall_def)
  ultimately show ?thesis
    by (simp add: extract_summary_def convert_def)
qed


lemma convert_error:
  assumes "digits_run T d1" "digits_run T d2" "digits_run T d3"
    and "convert T d1 d2 d3 = Inl e"
  shows "\<exists>n. int_max_str_digits < n \<and> e = int_limit_error n \<and>
           (n = length d1 \<or> n = length d2 \<or> n = length d3)"
proof -
  have c: "py_int T d = Inr (base10 T d) \<or>
      (int_max_str_digits < length d \<and> py_int T d = Inl (int_limit_error (length d)))"
    if "digits_run T d" for d
    using that py_int_digits_run [of T d] py_int_too_long [of T d]
    by (cases "length d \<le> int_max_str_digits") simp_all
  from c [OF assms(1)] c [OF assms(2)] c [OF assms(3)] assms(4) show ?thesis
    by (auto simp: convert_def)
qed

lemma extract_summary_Nil:
  "finditer T pattern 0 content = [] \<Longrightarrow> extract_summary T content = Inl SummaryNotFound"
  by (simp add: extract_summary_def re_findall_def)

section \<open>ASCII text\<close>

text \<open>
  On text below code point 128 the search and the conversion depend on the tables only
  through their ASCII part, which is fixed.
\<close>

lemma in_class_ascii:
  "agrees_ascii T \<Longrightarrow> c < 128 \<Longrightarrow> in_class T cl c = in_class ascii_tables cl c"
  by (cases cl) (simp_all add: agrees_ascii_def)

lemma ascii_text_drop: "ascii_text s \<Longrightarrow> ascii_text (drop k s)"
  unfolding ascii_text_def list_all_iff by (auto dest: in_set_dropD)

lemma takeWhile_ascii:
  assumes "agrees_ascii T" "ascii_text s"
  shows "takeWhile (in_class T cl) s = takeWhile (in_class ascii_tables cl) s"
proof (rule takeWhile_cong)
  show "s = s" by simp
next
  fix x assume "x \<in> set s"
  with assms(2) have "x < 128" by (simp add: ascii_text_def list_all_iff)
  with assms(1) show "in_class T cl x = in_class ascii_tables cl x" by (rule in_class_ascii)
qed

lemma match_here_ascii:
  "agrees_ascii T \<Longrightarrow> ascii_text s \<Longrightarrow> match_here T p s = match_here ascii_tables p s"
proof (induction p arbitrary: s)
  case Nil
  then show ?case by simp
next
  case (Cons x p)
  have ih: "match_here T p (drop k s) = match_here ascii_tables p (drop k s)" for k
    using Cons.IH [OF Cons.prems(1) ascii_text_drop [OF Cons.prems(2)]] .
  show ?case
  proof (cases x)
    case (Lit l)
    then show ?thesis using ih by simp
  next
    case (Plus cl)
    then show ?thesis using ih takeWhile_ascii [OF Cons.prems] by simp
  next
    case (GroupPlus cl)
    then show ?thesis using ih takeWhile_ascii [OF Cons.prems] by simp
  qed
qed

lemma finditer_ascii:
  "agrees_ascii T \<Longrightarrow> ascii_text s \<Longrightarrow> finditer T p pos s = finditer ascii_tables p pos s"
proof (induction T p pos s rule: finditer.induct)
  case (1 T p pos s)
  note mh = match_here_ascii [OF "1.prems", of p]
  show ?case
  proof (cases "match_here T p s")
    case None
    with mh have None': "match_here ascii_tables p s = None" by simp
    show ?thesis
    proof (cases s)
      case Nil
      then show ?thesis unfolding finditer_None [OF None] finditer_None [OF None'] by simp
    next
      case (Cons x xs)
      with "1.prems"(2) have "ascii_text xs" by (simp add: ascii_text_def)
      from "1.IH"(1) [OF None Cons "1.prems"(1) this] Cons show ?thesis
        unfolding finditer_None [OF None] finditer_None [OF None'] by simp
    qed
  next
    case (Some a)
    obtain gs0 n where a: "a = (gs0, n)" by (cases a)
    with Some have m: "match_here T p s = Some (gs0, n)" by simp
    with mh have m': "match_here ascii_tables p s = Some (gs0, n)" by simp
    show ?thesis
    proof (cases "n = 0")
      case True
      show ?thesis
      proof (cases s)
        case Nil
        with True show ?thesis unfolding finditer_Some [OF m] finditer_Some [OF m'] by simp
      next
        case (Cons x xs)
        with "1.prems"(2) have "ascii_text xs" by (simp add: ascii_text_def)
        from "1.IH"(2) [OF Some a [symmetric] True Cons "1.prems"(1) this] True Cons
        show ?thesis unfolding finditer_Some [OF m] finditer_Some [OF m'] by simp
      qed
    next
      case False
      from "1.IH"(3) [OF Some a [symmetric] False "1.prems"(1) ascii_text_drop [OF "1.prems"(2)]]
        False
      show ?thesis unfolding finditer_Some [OF m] finditer_Some [OF m'] by simp
    qed
  qed
qed

lemma digits_value_ascii:
  "agrees_ascii T \<Longrightarrow> ascii_text s \<Longrightarrow> digits_value T a s = digits_value ascii_tables a s"
proof (induction s arbitrary: a)
  case Nil
  then show ?case by simp
next
  case (Cons c cs)
  from Cons.prems(2) have c: "c < 128" and cs: "ascii_text cs" by (simp_all add: ascii_text_def)
  from Cons.prems(1) c have "todecimal T c = todecimal ascii_tables c"
    by (simp add: agrees_ascii_def)
  with Cons.IH [OF Cons.prems(1) cs] show ?case by (simp split: option.splits)
qed

lemma py_int_ascii:
  "agrees_ascii T \<Longrightarrow> ascii_text s \<Longrightarrow> py_int T s = py_int ascii_tables s"
  by (simp add: py_int_def digits_value_ascii)

lemma match_here_groups:
  "match_here T p s = Some (gs, n) \<Longrightarrow> g \<in> set gs \<Longrightarrow> set g \<subseteq> set s"
proof (induction p arbitrary: s gs n)
  case Nil
  then show ?case by simp
next
  case (Cons x p)
  show ?case
  proof (cases x)
    case (Lit l)
    with Cons.prems(1) obtain n' where
      m: "match_here T p (drop (length l) s) = Some (gs, n')"
      by (auto split: if_splits)
    from Cons.IH [OF m Cons.prems(2)] show ?thesis
      using set_drop_subset [of "length l" s] by blast
  next
    case (Plus cl)
    with Cons.prems(1) have
      "first_some (\<lambda>k. map_option (\<lambda>(gs, n). (gs, k + n)) (match_here T p (drop k s)))
         (length (takeWhile (in_class T cl) s)) = Some (gs, n)"
      by simp
    then obtain j gs' n' where
      m: "match_here T p (drop j s) = Some (gs', n')"
      and r: "(gs, n) = (case (gs', n') of (gs, n) \<Rightarrow> (gs, j + n))"
      by (rule plus_sound [where g = "\<lambda>k (gs, n). (gs, k + n)"])
    from r have "gs = gs'" by simp
    with Cons.IH [OF m] Cons.prems(2) show ?thesis
      using set_drop_subset [of j s] by blast
  next
    case (GroupPlus cl)
    with Cons.prems(1) have
      "first_some (\<lambda>k. map_option (\<lambda>(gs, n). (take k s # gs, k + n)) (match_here T p (drop k s)))
         (length (takeWhile (in_class T cl) s)) = Some (gs, n)"
      by simp
    then obtain j gs' n' where
      m: "match_here T p (drop j s) = Some (gs', n')"
      and r: "(gs, n) = (case (gs', n') of (gs, n) \<Rightarrow> (take j s # gs, j + n))"
      by (rule plus_sound [where g = "\<lambda>k (gs, n). (take k s # gs, k + n)"])
    from r have gs: "gs = take j s # gs'" by simp
    show ?thesis
    proof (cases "g = take j s")
      case True
      then show ?thesis using set_take_subset [of j s] by simp
    next
      case False
      with gs Cons.prems(2) have "g \<in> set gs'" by simp
      from Cons.IH [OF m this] show ?thesis
        using set_drop_subset [of j s] by blast
    qed
  qed
qed

lemma finditer_groups_ascii:
  assumes "ascii_text s" "(st, en, gs) \<in> set (finditer T p 0 s)" "g \<in> set gs"
  shows "ascii_text g"
proof -
  from finditer_mem [OF assms(2)] have "match_here T p (drop st s) = Some (gs, en - st)"
    by simp
  from match_here_groups [OF this assms(3)] have "set g \<subseteq> set s"
    using set_drop_subset [of st s] by blast
  with assms(1) show ?thesis by (auto simp: ascii_text_def list_all_iff)
qed

lemma extract_summary_ascii:
  assumes "agrees_ascii T" "ascii_text content"
  shows "extract_summary T content = extract_summary ascii_tables content"
proof -
  have fi: "finditer T pattern 0 content = finditer ascii_tables pattern 0 content"
    using assms by (rule finditer_ascii)
  then have rf: "re_findall T pattern content = re_findall ascii_tables pattern content"
    by (simp add: re_findall_def)
  show ?thesis
  proof (cases "finditer ascii_tables pattern 0 content = []")
    case True
    with rf show ?thesis by (simp add: extract_summary_def re_findall_def)
  next
    case False
    obtain st en gs where l: "last (finditer ascii_tables pattern 0 content) = (st, en, gs)"
      by (cases "last (finditer ascii_tables pattern 0 content)")
    with False have mem: "(st, en, gs) \<in> set (finditer ascii_tables pattern 0 content)"
      using last_in_set by metis
    from False l have lg: "last (re_findall ascii_tables pattern content) = gs"
      by (simp add: re_findall_def last_map)
    have pi: "py_int T g = py_int ascii_tables g" if "g \<in> set gs" for g
      using py_int_ascii [OF assms(1) finditer_groups_ascii [OF assms(2) mem that]] .
    then have eqs: "\<forall>g \<in> set gs. py_int T g = py_int ascii_tables g" by blast
    show ?thesis
      unfolding extract_summary_def rf Let_def lg
      using eqs by (auto split: list.splits sum.splits)
  qed
qed

text \<open>
  A content contains a summary when some part of it, anywhere, has the shape of a
  summary line.
\<close>

definition contains_summary :: "tables \<Rightarrow> str \<Rightarrow> bool" where
  "contains_summary T content =
     (\<exists>pre u post d1 d2 d3. content = pre @ u @ post \<and> summary_text T u d1 d2 d3)"

lemma match_here_pattern_iff:
  "match_here T pattern s \<noteq> None \<longleftrightarrow> (\<exists>u r d1 d2 d3. s = u @ r \<and> summary_text T u d1 d2 d3)"
proof
  assume "match_here T pattern s \<noteq> None"
  then obtain gs n where m: "match_here T pattern s = Some (gs, n)" by auto
  from match_here_pattern [OF m] obtain d1 d2 d3 where "summary_text T (take n s) d1 d2 d3"
    by blast
  then have "s = take n s @ drop n s \<and> summary_text T (take n s) d1 d2 d3" by simp
  then show "\<exists>u r d1 d2 d3. s = u @ r \<and> summary_text T u d1 d2 d3" by (intro exI)
next
  assume "\<exists>u r d1 d2 d3. s = u @ r \<and> summary_text T u d1 d2 d3"
  then obtain u r d1 d2 d3 where s: "s = u @ r" and t: "summary_text T u d1 d2 d3" by blast
  from summary_accepts_pattern [OF t] have "match_here T pattern (u @ r) \<noteq> None"
    by (rule match_here_complete)
  with s show "match_here T pattern s \<noteq> None" by simp
qed

lemma contains_summary_iff:
  "contains_summary T content \<longleftrightarrow>
     (\<exists>i \<le> length content. match_here T pattern (drop i content) \<noteq> None)"
proof
  assume "contains_summary T content"
  then obtain pre u post d1 d2 d3 where
    c: "content = pre @ u @ post" and t: "summary_text T u d1 d2 d3"
    unfolding contains_summary_def by (elim exE conjE)
  from summary_accepts_pattern [OF t] have "match_here T pattern (u @ post) \<noteq> None"
    by (rule match_here_complete)
  moreover from c have "drop (length pre) content = u @ post" by simp
  moreover from c have "length pre \<le> length content" by simp
  ultimately have "length pre \<le> length content \<and>
      match_here T pattern (drop (length pre) content) \<noteq> None"
    by simp
  then show "\<exists>i \<le> length content. match_here T pattern (drop i content) \<noteq> None"
    by (rule exI)
next
  assume "\<exists>i \<le> length content. match_here T pattern (drop i content) \<noteq> None"
  then obtain i gs n where m: "match_here T pattern (drop i content) = Some (gs, n)"
    by auto
  from match_here_pattern [OF m] obtain d1 d2 d3 where
    t: "summary_text T (take n (drop i content)) d1 d2 d3"
    by (elim exE conjE)
  have "content = take i content @ take n (drop i content) @ drop n (drop i content)"
    by (simp only: append_take_drop_id)
  then have "content = take i content @ take n (drop i content) @ drop n (drop i content) \<and>
      summary_text T (take n (drop i content)) d1 d2 d3"
    using t by (rule conjI)
  then show "contains_summary T content"
    unfolding contains_summary_def by (intro exI)
qed

lemma finditer_Nil_contains:
  "finditer T pattern pos content = [] \<longleftrightarrow> \<not> contains_summary T content"
  unfolding finditer_Nil_iff contains_summary_iff
  by (simp only: not_ex de_Morgan_conj not_not imp_conv_disj)

section \<open>Results on the extractor\<close>

lemma agrees_ascii_self: "agrees_ascii ascii_tables"
  by (simp add: agrees_ascii_def)

lemma re_findall_ascii:
  "agrees_ascii T \<Longrightarrow> ascii_text content \<Longrightarrow>
     re_findall T p content = re_findall ascii_tables p content"
  by (simp add: re_findall_def finditer_ascii)

lemma re_findall_Nil_contains:
  "re_findall T pattern content = [] \<longleftrightarrow> \<not> contains_summary T content"
  by (simp add: re_findall_def finditer_Nil_contains)

lemma sorted_wrt_cases:
  "sorted_wrt P xs \<Longrightarrow> a \<in> set xs \<Longrightarrow> b \<in> set xs \<Longrightarrow> a = b \<or> P a b \<or> P b a"
  by (induction xs) auto

text \<open>
  A log with an intermediate summary line, some noise, and a final summary line on
  separate lines.
\<close>

definition interrupted_log :: str where
  "interrupted_log =
     lit ''Running tests...'' @ [10] @ lit ''5 Tests 1 Failures 0 Ignored'' @ [10] @
     lit ''(extra noise)'' @ [10] @ lit ''5 Tests 0 Failures 0 Ignored''"


text \<open>
  Two logs with one summary line each: one with text before and after it on the same
  line, one with the tokens of the summary line spread over several lines (separated by
  carriage return and line feed, a tab, two line feeds, three spaces, a line feed).
\<close>

definition surrounded_line :: str where
  "surrounded_line = lit ''I (123) unity: 10 Tests 2 Failures 1 Ignored -- done''"

definition broken_lines :: str where
  "broken_lines =
     lit ''10'' @ [13, 10] @ lit ''Tests'' @ [9] @ lit ''2'' @ [10, 10] @ lit ''Failures   1'' @
     [10] @ lit ''Ignored''"

lemma re_findall_example:
  assumes "agrees_ascii T" "ascii_text content" "re_findall ascii_tables pattern content = r"
  shows "re_findall T pattern content = r"
  using re_findall_ascii [OF assms(1,2), of pattern] assms(3) by simp

text \<open>
  C7. The pattern matches at a position exactly when the text from there on starts with
  a string of the shape \<^verbatim>\<open><integer> Tests <integer> Failures <integer> Ignored\<close>, the
  integers being non-empty runs of decimal digits and the separators non-empty runs of
  whitespace; the search finds something exactly when some part of the content has this
  shape, wherever it stands; and whatever the search reports is a part of the content of
  this shape, with the three integers as groups. On ASCII text: text around the summary
  on the same line and line breaks between its tokens do not prevent the match; a missing
  integer, a missing separator and a keyword in another case do.
\<close>

theorem occurrence_shape:
  "(match_here T pattern s \<noteq> None \<longleftrightarrow>
      (\<exists>u r d1 d2 d3. s = u @ r \<and> summary_text T u d1 d2 d3)) \<and>
   (re_findall T pattern content \<noteq> [] \<longleftrightarrow> contains_summary T content) \<and>
   (\<forall>m \<in> set (finditer T pattern 0 content).
      \<exists>d1 d2 d3. snd (snd m) = [d1, d2, d3] \<and>
        occurrence_at T content (fst m) (fst (snd m)) d1 d2 d3) \<and>
   (agrees_ascii T \<longrightarrow>
      re_findall T pattern surrounded_line = [[lit ''10'', lit ''2'', lit ''1'']] \<and>
      re_findall T pattern broken_lines = [[lit ''10'', lit ''2'', lit ''1'']] \<and>
      re_findall T pattern (lit ''10 Tests 2 Failures Ignored'') = [] \<and>
      re_findall T pattern (lit ''10Tests 2 Failures 1 Ignored'') = [] \<and>
      re_findall T pattern (lit ''10 Tests 2Failures 1 Ignored'') = [] \<and>
      re_findall T pattern (lit ''10 tests 2 failures 1 ignored'') = [] \<and>
      re_findall T pattern (lit ''10 TESTS 2 Failures 1 Ignored'') = [])"
proof -
  have c1: "match_here T pattern s \<noteq> None \<longleftrightarrow>
      (\<exists>u r d1 d2 d3. s = u @ r \<and> summary_text T u d1 d2 d3)"
    by (rule match_here_pattern_iff)
  have c2: "re_findall T pattern content \<noteq> [] \<longleftrightarrow> contains_summary T content"
    by (simp add: re_findall_Nil_contains)
  have c3: "\<forall>m \<in> set (finditer T pattern 0 content).
      \<exists>d1 d2 d3. snd (snd m) = [d1, d2, d3] \<and>
        occurrence_at T content (fst m) (fst (snd m)) d1 d2 d3"
  proof
    fix m assume "m \<in> set (finditer T pattern 0 content)"
    then have "(fst m, fst (snd m), snd (snd m)) \<in> set (finditer T pattern 0 content)" by simp
    then show "\<exists>d1 d2 d3. snd (snd m) = [d1, d2, d3] \<and>
        occurrence_at T content (fst m) (fst (snd m)) d1 d2 d3"
      by (rule finditer_occurrence)
  qed
  have c4: "agrees_ascii T \<longrightarrow>
      re_findall T pattern surrounded_line = [[lit ''10'', lit ''2'', lit ''1'']] \<and>
      re_findall T pattern broken_lines = [[lit ''10'', lit ''2'', lit ''1'']] \<and>
      re_findall T pattern (lit ''10 Tests 2 Failures Ignored'') = [] \<and>
      re_findall T pattern (lit ''10Tests 2 Failures 1 Ignored'') = [] \<and>
      re_findall T pattern (lit ''10 Tests 2Failures 1 Ignored'') = [] \<and>
      re_findall T pattern (lit ''10 tests 2 failures 1 ignored'') = [] \<and>
      re_findall T pattern (lit ''10 TESTS 2 Failures 1 Ignored'') = []"
  proof
    assume a: "agrees_ascii T"
    have t1: "ascii_text surrounded_line" by code_simp
    have f1: "re_findall ascii_tables pattern surrounded_line = [[lit ''10'', lit ''2'', lit ''1'']]"
      by code_simp
    have t2: "ascii_text broken_lines" by code_simp
    have f2: "re_findall ascii_tables pattern broken_lines = [[lit ''10'', lit ''2'', lit ''1'']]"
      by code_simp
    have t3: "ascii_text (lit ''10 Tests 2 Failures Ignored'')" by code_simp
    have f3: "re_findall ascii_tables pattern (lit ''10 Tests 2 Failures Ignored'') = []"
      by code_simp
    have t4: "ascii_text (lit ''10Tests 2 Failures 1 Ignored'')" by code_simp
    have f4: "re_findall ascii_tables pattern (lit ''10Tests 2 Failures 1 Ignored'') = []"
      by code_simp
    have t5: "ascii_text (lit ''10 Tests 2Failures 1 Ignored'')" by code_simp
    have f5: "re_findall ascii_tables pattern (lit ''10 Tests 2Failures 1 Ignored'') = []"
      by code_simp
    have t6: "ascii_text (lit ''10 tests 2 failures 1 ignored'')" by code_simp
    have f6: "re_findall ascii_tables pattern (lit ''10 tests 2 failures 1 ignored'') = []"
      by code_simp
    have t7: "ascii_text (lit ''10 TESTS 2 Failures 1 Ignored'')" by code_simp
    have f7: "re_findall ascii_tables pattern (lit ''10 TESTS 2 Failures 1 Ignored'') = []"
      by code_simp
    from re_findall_example [OF a t1 f1] re_findall_example [OF a t2 f2]
      re_findall_example [OF a t3 f3] re_findall_example [OF a t4 f4]
      re_findall_example [OF a t5 f5] re_findall_example [OF a t6 f6]
      re_findall_example [OF a t7 f7]
    show "re_findall T pattern surrounded_line = [[lit ''10'', lit ''2'', lit ''1'']] \<and>
      re_findall T pattern broken_lines = [[lit ''10'', lit ''2'', lit ''1'']] \<and>
      re_findall T pattern (lit ''10 Tests 2 Failures Ignored'') = [] \<and>
      re_findall T pattern (lit ''10Tests 2 Failures 1 Ignored'') = [] \<and>
      re_findall T pattern (lit ''10 Tests 2Failures 1 Ignored'') = [] \<and>
      re_findall T pattern (lit ''10 tests 2 failures 1 ignored'') = [] \<and>
      re_findall T pattern (lit ''10 TESTS 2 Failures 1 Ignored'') = []"
      by (intro conjI)
  qed
  from c1 c2 c3 c4 show ?thesis by (intro conjI)
qed

theorem occurrence_shape_witness:
  "agrees_ascii ascii_tables \<and>
   re_findall ascii_tables pattern surrounded_line = [[lit ''10'', lit ''2'', lit ''1'']] \<and>
   re_findall ascii_tables pattern broken_lines = [[lit ''10'', lit ''2'', lit ''1'']] \<and>
   re_findall ascii_tables pattern (lit ''10 tests 2 failures 1 ignored'') = [] \<and>
   (15, 44, [lit ''10'', lit ''2'', lit ''1'']) \<in> set (finditer ascii_tables pattern 0 surrounded_line) \<and>
   (\<exists>d1 d2 d3. [lit ''10'', lit ''2'', lit ''1''] = [d1, d2, d3] \<and>
      occurrence_at ascii_tables surrounded_line 15 44 d1 d2 d3)"
proof -
  note th = occurrence_shape [of ascii_tables "[]" surrounded_line]
  from th agrees_ascii_self have
    e: "re_findall ascii_tables pattern surrounded_line = [[lit ''10'', lit ''2'', lit ''1'']]"
       "re_findall ascii_tables pattern broken_lines = [[lit ''10'', lit ''2'', lit ''1'']]"
       "re_findall ascii_tables pattern (lit ''10 tests 2 failures 1 ignored'') = []"
    by simp_all
  have m: "(15, 44, [lit ''10'', lit ''2'', lit ''1'']) \<in>
      set (finditer ascii_tables pattern 0 surrounded_line)"
    by code_simp
  from th have "\<forall>m \<in> set (finditer ascii_tables pattern 0 surrounded_line).
      \<exists>d1 d2 d3. snd (snd m) = [d1, d2, d3] \<and>
        occurrence_at ascii_tables surrounded_line (fst m) (fst (snd m)) d1 d2 d3"
    by (elim conjE)
  from bspec [OF this m] have
    o: "\<exists>d1 d2 d3. [lit ''10'', lit ''2'', lit ''1''] = [d1, d2, d3] \<and>
      occurrence_at ascii_tables surrounded_line 15 44 d1 d2 d3"
    by simp
  from agrees_ascii_self e m o show ?thesis by (intro conjI)
qed

lemma finditer_disjoint:
  assumes "a \<in> set (finditer T p pos s)" "b \<in> set (finditer T p pos s)"
  shows "\<not> (fst a < fst b \<and> fst b < fst (snd a))"
proof -
  from sorted_wrt_cases [OF finditer_sorted assms]
  consider "a = b" | "before a b" | "before b a" by blast
  then show ?thesis
  proof cases
    case 1
    then show ?thesis by simp
  next
    case 2
    then show ?thesis by (simp add: before_def)
  next
    case 3
    then show ?thesis by (simp add: before_def)
  qed
qed

text \<open>
  C10. No occurrence that the scan reports starts strictly inside another reported
  occurrence. For the content \<^verbatim>\<open>12 Tests 3 Failures 4 Ignored\<close> (tables the interpreter's
  on ASCII): the pattern also matches from the second digit on, which would give 2 tests,
  but the scan reports the single occurrence that starts at offset 0, and the extracted
  summary has 12 tests.
\<close>

theorem scan_non_overlapping:
  "(\<forall>a \<in> set (finditer T pattern 0 content). \<forall>b \<in> set (finditer T pattern 0 content).
      \<not> (fst a < fst b \<and> fst b < fst (snd a))) \<and>
   (agrees_ascii T \<longrightarrow>
      match_here T pattern (drop 1 (lit ''12 Tests 3 Failures 4 Ignored'')) =
        Some ([lit ''2'', lit ''3'', lit ''4''], 28) \<and>
      finditer T pattern 0 (lit ''12 Tests 3 Failures 4 Ignored'') =
        [(0, 29, [lit ''12'', lit ''3'', lit ''4''])] \<and>
      extract_summary T (lit ''12 Tests 3 Failures 4 Ignored'') = Inr (12, 3, 4))"
proof -
  have c1: "\<forall>a \<in> set (finditer T pattern 0 content). \<forall>b \<in> set (finditer T pattern 0 content).
      \<not> (fst a < fst b \<and> fst b < fst (snd a))"
    by (intro ballI) (rule finditer_disjoint)
  have c2: "agrees_ascii T \<longrightarrow>
      match_here T pattern (drop 1 (lit ''12 Tests 3 Failures 4 Ignored'')) =
        Some ([lit ''2'', lit ''3'', lit ''4''], 28) \<and>
      finditer T pattern 0 (lit ''12 Tests 3 Failures 4 Ignored'') =
        [(0, 29, [lit ''12'', lit ''3'', lit ''4''])] \<and>
      extract_summary T (lit ''12 Tests 3 Failures 4 Ignored'') = Inr (12, 3, 4)"
  proof
    assume a: "agrees_ascii T"
    have t: "ascii_text (lit ''12 Tests 3 Failures 4 Ignored'')" by code_simp
    have m: "match_here ascii_tables pattern (drop 1 (lit ''12 Tests 3 Failures 4 Ignored'')) =
        Some ([lit ''2'', lit ''3'', lit ''4''], 28)"
      by code_simp
    have f: "finditer ascii_tables pattern 0 (lit ''12 Tests 3 Failures 4 Ignored'') =
        [(0, 29, [lit ''12'', lit ''3'', lit ''4''])]"
      by code_simp
    have e: "extract_summary ascii_tables (lit ''12 Tests 3 Failures 4 Ignored'') = Inr (12, 3, 4)"
      by code_simp
    from match_here_ascii [OF a ascii_text_drop [OF t], of pattern 1] m
    have m': "match_here T pattern (drop 1 (lit ''12 Tests 3 Failures 4 Ignored'')) =
        Some ([lit ''2'', lit ''3'', lit ''4''], 28)"
      by simp
    from finditer_ascii [OF a t, of pattern 0] f
    have f': "finditer T pattern 0 (lit ''12 Tests 3 Failures 4 Ignored'') =
        [(0, 29, [lit ''12'', lit ''3'', lit ''4''])]"
      by simp
    from extract_summary_ascii [OF a t] e
    have e': "extract_summary T (lit ''12 Tests 3 Failures 4 Ignored'') = Inr (12, 3, 4)"
      by simp
    from m' f' e' show
      "match_here T pattern (drop 1 (lit ''12 Tests 3 Failures 4 Ignored'')) =
        Some ([lit ''2'', lit ''3'', lit ''4''], 28) \<and>
       finditer T pattern 0 (lit ''12 Tests 3 Failures 4 Ignored'') =
        [(0, 29, [lit ''12'', lit ''3'', lit ''4''])] \<and>
       extract_summary T (lit ''12 Tests 3 Failures 4 Ignored'') = Inr (12, 3, 4)"
      by (intro conjI)
  qed
  from c1 c2 show ?thesis by (rule conjI)
qed

theorem scan_non_overlapping_witness:
  "agrees_ascii ascii_tables \<and>
   match_here ascii_tables pattern (drop 1 (lit ''12 Tests 3 Failures 4 Ignored'')) =
     Some ([lit ''2'', lit ''3'', lit ''4''], 28) \<and>
   finditer ascii_tables pattern 0 (lit ''12 Tests 3 Failures 4 Ignored'') =
     [(0, 29, [lit ''12'', lit ''3'', lit ''4''])] \<and>
   extract_summary ascii_tables (lit ''12 Tests 3 Failures 4 Ignored'') = Inr (12, 3, 4) \<and>
   (17, 45, [lit ''5'', lit ''1'', lit ''0'']) \<in> set (finditer ascii_tables pattern 0 interrupted_log) \<and>
   (60, 88, [lit ''5'', lit ''0'', lit ''0'']) \<in> set (finditer ascii_tables pattern 0 interrupted_log) \<and>
   \<not> ((17::nat) < 60 \<and> (60::nat) < 45)"
proof -
  note th = scan_non_overlapping [of ascii_tables interrupted_log]
  from th agrees_ascii_self have
    e: "match_here ascii_tables pattern (drop 1 (lit ''12 Tests 3 Failures 4 Ignored'')) =
          Some ([lit ''2'', lit ''3'', lit ''4''], 28)"
       "finditer ascii_tables pattern 0 (lit ''12 Tests 3 Failures 4 Ignored'') =
          [(0, 29, [lit ''12'', lit ''3'', lit ''4''])]"
       "extract_summary ascii_tables (lit ''12 Tests 3 Failures 4 Ignored'') = Inr (12, 3, 4)"
    by simp_all
  have a: "(17, 45, [lit ''5'', lit ''1'', lit ''0'']) \<in>
      set (finditer ascii_tables pattern 0 interrupted_log)"
    by code_simp
  have b: "(60, 88, [lit ''5'', lit ''0'', lit ''0'']) \<in>
      set (finditer ascii_tables pattern 0 interrupted_log)"
    by code_simp
  from th have "\<forall>a \<in> set (finditer ascii_tables pattern 0 interrupted_log).
      \<forall>b \<in> set (finditer ascii_tables pattern 0 interrupted_log).
        \<not> (fst a < fst b \<and> fst b < fst (snd a))"
    by (rule conjunct1)
  from bspec [OF bspec [OF this a] b] have n: "\<not> ((17::nat) < 60 \<and> (60::nat) < 45)"
    by simp
  from agrees_ascii_self e a b n show ?thesis by (intro conjI)
qed

section \<open>Results on the command-line driver\<close>

lemma parse_unity_output_Content:
  "files w p = Content c \<Longrightarrow>
     parse_unity_output T w p =
       (extract_summary T c, w\<lparr>accesses := accesses w @ [Stat p, Read p]\<rparr>)"
  by (simp add: parse_unity_output_def path_exists_def read_text_def)

lemma main_usage:
  "length argv \<noteq> 2 \<Longrightarrow>
     main T argv w =
       \<lparr>stdout = [], stderr = [[Text ''Usage: parse_unity_output.py <qemu_output.log>'']],
        exit_code = 2, world_after = w\<rparr>"
  by (simp add: main_def)

text \<open>
  A file system with at most one entry, no access made yet, and a standard output that
  has the banner symbols.
\<close>

definition disk :: "str \<Rightarrow> file_state \<Rightarrow> world" where
  "disk p st =
     \<lparr>files = (\<lambda>q. if q = p then st else Absent), accesses = [], stdout_unicode = True\<rparr>"

text \<open>Names for the examples: the script and a log file.\<close>

definition prog :: str where
  "prog = lit ''parse_unity_output.py''"

definition log_path :: str where
  "log_path = lit ''qemu_output.log''"

text \<open>
  C5. When the number of arguments after the program name is not one, the exit code is
  2, the usage line is written to standard error, nothing is written to standard output,
  and the world is left as it was: no file access is made. The result is the same
  whatever the file system holds.
\<close>

theorem invalid_arguments:
  assumes "length (tl argv) \<noteq> 1"
  shows "exit_code (main T argv w) = 2 \<and>
         stderr (main T argv w) = [[Text ''Usage: parse_unity_output.py <qemu_output.log>'']] \<and>
         stdout (main T argv w) = [] \<and>
         world_after (main T argv w) = w \<and>
         (\<forall>w'. exit_code (main T argv w') = exit_code (main T argv w) \<and>
               stdout (main T argv w') = stdout (main T argv w) \<and>
               stderr (main T argv w') = stderr (main T argv w))"
proof -
  from assms have "length argv \<noteq> 2" by (cases argv) auto
  then have "main T argv w' =
      \<lparr>stdout = [], stderr = [[Text ''Usage: parse_unity_output.py <qemu_output.log>'']],
       exit_code = 2, world_after = w'\<rparr>" for w'
    by (rule main_usage)
  then show ?thesis by simp
qed

theorem invalid_arguments_witness:
  "length (tl [prog]) \<noteq> 1 \<and>
   exit_code (main ascii_tables [prog]
     (disk log_path (Content (lit ''10 Tests 0 Failures 0 Ignored'')))) = 2 \<and>
   length (tl [prog, log_path, lit ''other.log'']) \<noteq> 1 \<and>
   exit_code (main ascii_tables [prog, log_path, lit ''other.log'']
     (disk log_path (Content (lit ''10 Tests 0 Failures 0 Ignored'')))) = 2 \<and>
   accesses (world_after (main ascii_tables [prog, log_path, lit ''other.log'']
     (disk log_path (Content (lit ''10 Tests 0 Failures 0 Ignored''))))) = []"
proof -
  have h1: "length (tl [prog]) \<noteq> 1" by simp
  have h2: "length (tl [prog, log_path, lit ''other.log'']) \<noteq> 1" by simp
  from invalid_arguments [OF h1, of ascii_tables
      "disk log_path (Content (lit ''10 Tests 0 Failures 0 Ignored''))"]
  have e1: "exit_code (main ascii_tables [prog]
     (disk log_path (Content (lit ''10 Tests 0 Failures 0 Ignored'')))) = 2"
    by (rule conjunct1)
  note th = invalid_arguments [OF h2, of ascii_tables
      "disk log_path (Content (lit ''10 Tests 0 Failures 0 Ignored''))"]
  from th have e2: "exit_code (main ascii_tables [prog, log_path, lit ''other.log'']
     (disk log_path (Content (lit ''10 Tests 0 Failures 0 Ignored'')))) = 2"
    by (rule conjunct1)
  from th have "world_after (main ascii_tables [prog, log_path, lit ''other.log'']
       (disk log_path (Content (lit ''10 Tests 0 Failures 0 Ignored'')))) =
     disk log_path (Content (lit ''10 Tests 0 Failures 0 Ignored''))"
    by (elim conjE)
  then have e3: "accesses (world_after (main ascii_tables [prog, log_path, lit ''other.log'']
     (disk log_path (Content (lit ''10 Tests 0 Failures 0 Ignored''))))) = []"
    by (simp add: disk_def)
  from h1 e1 h2 e2 e3 show ?thesis by (intro conjI)
qed

text \<open>
  C8. The result of the extraction is a function of the content alone: two runs on files
  with the same content give the same result, which is the extractor's result on that
  content, whatever the path, the rest of the file system and the accesses made before;
  a run leaves the file system as it was, and a second run after it gives the same
  result again.
\<close>

theorem extraction_deterministic:
  assumes "files w p = Content content" and "files w' p' = Content content"
  shows "fst (parse_unity_output T w p) = extract_summary T content \<and>
         fst (parse_unity_output T w' p') = fst (parse_unity_output T w p) \<and>
         files (snd (parse_unity_output T w p)) = files w \<and>
         fst (parse_unity_output T (snd (parse_unity_output T w p)) p) =
           fst (parse_unity_output T w p)"
proof -
  note r = parse_unity_output_Content [OF assms(1), of T]
  note r' = parse_unity_output_Content [OF assms(2), of T]
  have "files (w\<lparr>accesses := accesses w @ [Stat p, Read p]\<rparr>) p = Content content"
    using assms(1) by simp
  note r2 = parse_unity_output_Content [OF this, of T]
  show ?thesis unfolding r r' by (simp add: r2)
qed

theorem extraction_deterministic_witness:
  "files (disk log_path (Content interrupted_log)) log_path = Content interrupted_log \<and>
   files (disk (lit ''serial.txt'') (Content interrupted_log)) (lit ''serial.txt'') =
     Content interrupted_log \<and>
   fst (parse_unity_output ascii_tables (disk log_path (Content interrupted_log)) log_path) =
     Inr (5, 0, 0) \<and>
   fst (parse_unity_output ascii_tables (disk (lit ''serial.txt'') (Content interrupted_log))
     (lit ''serial.txt'')) = Inr (5, 0, 0) \<and>
   fst (parse_unity_output ascii_tables
     (snd (parse_unity_output ascii_tables (disk log_path (Content interrupted_log)) log_path))
     log_path) = Inr (5, 0, 0)"
proof -
  have h1: "files (disk log_path (Content interrupted_log)) log_path = Content interrupted_log"
    by (simp add: disk_def)
  have h2: "files (disk (lit ''serial.txt'') (Content interrupted_log)) (lit ''serial.txt'') =
      Content interrupted_log"
    by (simp add: disk_def)
  have e: "extract_summary ascii_tables interrupted_log = Inr (5, 0, 0)"
    by code_simp
  from extraction_deterministic [OF h1 h2, of ascii_tables] h1 h2 e show ?thesis
    by simp
qed

section \<open>Occurrences in the text and matches of the scan\<close>


















text \<open>
  A property of the text: no run of consecutive decimal digits in it is longer than the
  limit of the conversion. Every digit group of an occurrence lies inside such a run.
\<close>

definition digit_runs_short :: "tables \<Rightarrow> str \<Rightarrow> bool" where
  "digit_runs_short T content =
     (\<forall>i. length (takeWhile (\<lambda>c. todecimal T c \<noteq> None) (drop i content)) \<le> int_max_str_digits)"


lemma group_short:
  assumes s: "digit_runs_short T content"
    and c: "content = pre @ d @ post"
    and d: "digits_run T d"
  shows "length d \<le> int_max_str_digits"
proof -
  from d have "length d \<le> length (takeWhile (\<lambda>c. todecimal T c \<noteq> None) (d @ post))"
    by (intro run_le_takeWhile) (simp add: digits_run_def)
  also from c have "d @ post = drop (length pre) content" by simp
  also from s have "length (takeWhile (\<lambda>c. todecimal T c \<noteq> None) (drop (length pre) content)) \<le>
      int_max_str_digits"
    by (simp add: digit_runs_short_def)
  finally show ?thesis .
qed

lemma occurrence_groups_short:
  assumes s: "digit_runs_short T content"
    and o: "occurrence_at T content st en d1 d2 d3"
  shows "length d1 \<le> int_max_str_digits \<and> length d2 \<le> int_max_str_digits \<and>
         length d3 \<le> int_max_str_digits"
proof -
  from o have t: "summary_text T (take (en - st) (drop st content)) d1 d2 d3"
    by (simp add: occurrence_at_def)
  then obtain w1 w2 w3 w4 w5 where
    d: "digits_run T d1" "digits_run T d2" "digits_run T d3" and
    ue: "take (en - st) (drop st content) =
      d1 @ w1 @ lit ''Tests'' @ w2 @ d2 @ w3 @ lit ''Failures'' @ w4 @ d3 @ w5 @ lit ''Ignored''"
    unfolding summary_text_def by (elim exE conjE)
  have "content = take st content @ take (en - st) (drop st content) @
      drop (en - st) (drop st content)"
    by (simp only: append_take_drop_id)
  then have c: "content = take st content @
      (d1 @ w1 @ lit ''Tests'' @ w2 @ d2 @ w3 @ lit ''Failures'' @ w4 @ d3 @ w5 @ lit ''Ignored'') @
      drop (en - st) (drop st content)"
    by (simp only: ue)
  have c1: "content = take st content @ d1 @
      (w1 @ lit ''Tests'' @ w2 @ d2 @ w3 @ lit ''Failures'' @ w4 @ d3 @ w5 @ lit ''Ignored'' @
       drop (en - st) (drop st content))"
    by (subst c) simp
  have c2: "content = (take st content @ d1 @ w1 @ lit ''Tests'' @ w2) @ d2 @
      (w3 @ lit ''Failures'' @ w4 @ d3 @ w5 @ lit ''Ignored'' @ drop (en - st) (drop st content))"
    by (subst c) simp
  have c3: "content =
      (take st content @ d1 @ w1 @ lit ''Tests'' @ w2 @ d2 @ w3 @ lit ''Failures'' @ w4) @ d3 @
      (w5 @ lit ''Ignored'' @ drop (en - st) (drop st content))"
    by (subst c) simp
  from group_short [OF s c1 d(1)] group_short [OF s c2 d(2)] group_short [OF s c3 d(3)]
  show ?thesis by simp
qed

section \<open>The last match and the occurrences of the text\<close>

text \<open>
  The extractor either finds no match, or converts the groups of the last match of the
  scan, which is an occurrence of the summary shape in the content.
\<close>

lemma last_match_cases:
  obtains
    (none) "finditer T pattern 0 content = []" "extract_summary T content = Inl SummaryNotFound"
  | (some) st en d1 d2 d3 where
      "finditer T pattern 0 content \<noteq> []"
      "last (finditer T pattern 0 content) = (st, en, [d1, d2, d3])"
      "occurrence_at T content st en d1 d2 d3"
      "extract_summary T content = convert T d1 d2 d3"
proof (cases "finditer T pattern 0 content = []")
  case True
  then show ?thesis using extract_summary_Nil [OF True] by (rule none)
next
  case False
  obtain st en gs where l: "last (finditer T pattern 0 content) = (st, en, gs)"
    by (cases "last (finditer T pattern 0 content)")
  from False have "last (finditer T pattern 0 content) \<in> set (finditer T pattern 0 content)"
    by (rule last_in_set)
  with l have mem: "(st, en, gs) \<in> set (finditer T pattern 0 content)" by simp
  from finditer_occurrence [OF mem] obtain d1 d2 d3 where
    gs: "gs = [d1, d2, d3]" and occ: "occurrence_at T content st en d1 d2 d3"
    by (elim exE conjE)
  from l gs have l': "last (finditer T pattern 0 content) = (st, en, [d1, d2, d3])" by simp
  from False l' occ extract_summary_convert [OF False l'] show ?thesis by (rule some)
qed

lemma occurrence_digits:
  assumes "occurrence_at T content st en d1 d2 d3"
  shows "digits_run T d1" "digits_run T d2" "digits_run T d3"
proof -
  from assms have "summary_text T (take (en - st) (drop st content)) d1 d2 d3"
    by (simp add: occurrence_at_def)
  from summary_text_digits [OF this]
  show "digits_run T d1" "digits_run T d2" "digits_run T d3" by simp_all
qed












section \<open>Occurrences that overlap\<close>













section \<open>Failures of the extractor\<close>


lemma extract_summary_error:
  assumes e: "extract_summary T content = Inl e"
  shows "(e = SummaryNotFound \<and> \<not> contains_summary T content) \<or>
         (contains_summary T content \<and> \<not> digit_runs_short T content \<and>
          (\<exists>n. int_max_str_digits < n \<and> e = int_limit_error n))"
proof (cases T content rule: last_match_cases)
  case none
  from none(1) have "\<not> contains_summary T content" by (simp add: finditer_Nil_contains)
  with none(2) e show ?thesis by simp
next
  case (some st en d1 d2 d3)
  from some(4) e have c: "convert T d1 d2 d3 = Inl e" by simp
  from convert_error [OF occurrence_digits [OF some(3)] c] obtain n where
    n: "int_max_str_digits < n" "e = int_limit_error n"
      "n = length d1 \<or> n = length d2 \<or> n = length d3"
    by (elim exE conjE)
  from some(1) have cs: "contains_summary T content" by (simp add: finditer_Nil_contains)
  have ns: "\<not> digit_runs_short T content"
  proof
    assume "digit_runs_short T content"
    from occurrence_groups_short [OF this some(3)] n(1,3) show False by auto
  qed
  from n(1,2) have "\<exists>n. int_max_str_digits < n \<and> e = int_limit_error n" by (intro exI conjI)
  with cs ns show ?thesis by simp
qed







section \<open>Outcomes of a run\<close>

text \<open>
  What \<^verbatim>\<open>parse_unity_output\<close> and \<^verbatim>\<open>main\<close> do for each state of the path, each
  result of the extractor and each kind of standard output.
\<close>

lemma parse_unity_output_Absent:
  "files w p = Absent \<Longrightarrow>
     parse_unity_output T w p =
       (Inl (FileNotFoundError [Text ''Output file not found: '', PathText p]),
        w\<lparr>accesses := accesses w @ [Stat p]\<rparr>)"
  by (simp add: parse_unity_output_def path_exists_def)

lemma parse_unity_output_NoStat:
  "files w p = NoStat \<Longrightarrow>
     parse_unity_output T w p = (Inl OSError, w\<lparr>accesses := accesses w @ [Stat p]\<rparr>)"
  by (simp add: parse_unity_output_def path_exists_def)

lemma parse_unity_output_Unreadable:
  "files w p = Unreadable \<Longrightarrow>
     parse_unity_output T w p = (Inl OSError, w\<lparr>accesses := accesses w @ [Stat p, Read p]\<rparr>)"
  by (simp add: parse_unity_output_def path_exists_def read_text_def)

lemma parse_unity_output_Undecodable:
  "files w p = Undecodable \<Longrightarrow>
     parse_unity_output T w p =
       (Inl UnicodeDecodeError, w\<lparr>accesses := accesses w @ [Stat p, Read p]\<rparr>)"
  by (simp add: parse_unity_output_def path_exists_def read_text_def)

lemma main_Absent:
  "length argv = 2 \<Longrightarrow> files w (argv ! 1) = Absent \<Longrightarrow>
     main T argv w =
       \<lparr>stdout = [],
        stderr = [[Text ''Error: '', Text ''Output file not found: '', PathText (argv ! 1)]],
        exit_code = 2, world_after = w\<lparr>accesses := accesses w @ [Stat (argv ! 1)]\<rparr>\<rparr>"
  by (simp add: main_def parse_unity_output_Absent)

lemma main_NoStat:
  "length argv = 2 \<Longrightarrow> files w (argv ! 1) = NoStat \<Longrightarrow>
     main T argv w =
       \<lparr>stdout = [], stderr = traceback OSError, exit_code = 1,
        world_after = w\<lparr>accesses := accesses w @ [Stat (argv ! 1)]\<rparr>\<rparr>"
  by (simp add: main_def parse_unity_output_NoStat)

lemma main_Unreadable:
  "length argv = 2 \<Longrightarrow> files w (argv ! 1) = Unreadable \<Longrightarrow>
     main T argv w =
       \<lparr>stdout = [], stderr = traceback OSError, exit_code = 1,
        world_after = w\<lparr>accesses := accesses w @ [Stat (argv ! 1), Read (argv ! 1)]\<rparr>\<rparr>"
  by (simp add: main_def parse_unity_output_Unreadable)

lemma main_Undecodable:
  "length argv = 2 \<Longrightarrow> files w (argv ! 1) = Undecodable \<Longrightarrow>
     main T argv w =
       \<lparr>stdout = [], stderr = [Text ''Error: '', SysText] # hints, exit_code = 1,
        world_after = w\<lparr>accesses := accesses w @ [Stat (argv ! 1), Read (argv ! 1)]\<rparr>\<rparr>"
  by (simp add: main_def parse_unity_output_Undecodable)

lemma main_error:
  "length argv = 2 \<Longrightarrow> files w (argv ! 1) = Content c \<Longrightarrow>
   extract_summary T c = Inl (ValueError m) \<Longrightarrow>
     main T argv w =
       \<lparr>stdout = [], stderr = (Text ''Error: '' # m) # hints, exit_code = 1,
        world_after = w\<lparr>accesses := accesses w @ [Stat (argv ! 1), Read (argv ! 1)]\<rparr>\<rparr>"
  by (simp add: main_def parse_unity_output_Content)

lemma main_summary:
  "length argv = 2 \<Longrightarrow> files w (argv ! 1) = Content c \<Longrightarrow>
   extract_summary T c = Inr (tests, failures, ignored) \<Longrightarrow> stdout_unicode w \<Longrightarrow>
     main T argv w =
       \<lparr>stdout = report tests failures ignored @
          [if failures = 0 then [Code 9989, Text '' All tests passed!'']
           else [Code 10060, Text '' '', Number failures, Text '' test(s) failed'']],
        stderr = [],
        exit_code = (if failures = 0 then 0 else 1),
        world_after = w\<lparr>accesses := accesses w @ [Stat (argv ! 1), Read (argv ! 1)]\<rparr>\<rparr>"
  by (simp add: main_def parse_unity_output_Content)

lemma main_summary_plain:
  "length argv = 2 \<Longrightarrow> files w (argv ! 1) = Content c \<Longrightarrow>
   extract_summary T c = Inr (tests, failures, ignored) \<Longrightarrow> \<not> stdout_unicode w \<Longrightarrow>
     main T argv w =
       \<lparr>stdout = report tests failures ignored,
        stderr = [Text ''Error: '', SysText] # hints,
        exit_code = 1,
        world_after = w\<lparr>accesses := accesses w @ [Stat (argv ! 1), Read (argv ! 1)]\<rparr>\<rparr>"
  by (simp add: main_def parse_unity_output_Content)

text \<open>
  Every error of the extractor is a \<^verbatim>\<open>ValueError\<close>, which the second \<^verbatim>\<open>except\<close>
  clause of \<^verbatim>\<open>main\<close> catches.
\<close>

lemma extract_summary_ValueError:
  assumes "extract_summary T c = Inl e"
  obtains m where "e = ValueError m"
  using extract_summary_error [OF assms]
  by (auto simp: SummaryNotFound_def int_limit_error_def)

lemma main_extract_error:
  assumes "length argv = 2" "files w (argv ! 1) = Content c" "extract_summary T c = Inl e"
  shows "stdout (main T argv w) = [] \<and> stderr (main T argv w) \<noteq> [] \<and>
         exit_code (main T argv w) = 1"
proof -
  from assms(3) obtain m where "e = ValueError m" by (rule extract_summary_ValueError)
  with assms(3) have "extract_summary T c = Inl (ValueError m)" by simp
  from main_error [OF assms(1,2) this] show ?thesis by simp
qed

lemma main_extract_summary:
  assumes "length argv = 2" "files w (argv ! 1) = Content c"
    "extract_summary T c = Inr (tests, failures, ignored)"
  shows "exit_code (main T argv w) = (if failures = 0 \<and> stdout_unicode w then 0 else 1)"
proof (cases "stdout_unicode w")
  case True
  from main_summary [OF assms True] True show ?thesis by simp
next
  case False
  from main_summary_plain [OF assms False] False show ?thesis by simp
qed





text \<open>
  A path that exists and cannot be read as a file (a directory, say). The script tests
  only that the path exists; reading then raises an error that \<^verbatim>\<open>main\<close> does not
  catch, and the run ends with a traceback and exit code 1, not 2.
\<close>

definition build_directory :: world where
  "build_directory = disk (lit ''build'') Unreadable"

text \<open>
  A path of 300 letters, longer than a file name may be: the lookup itself fails, and
  \<^verbatim>\<open>exists()\<close> raises the error instead of answering.
\<close>

definition long_name :: str where
  "long_name = replicate 300 97"

text \<open>
  C6, as stated, fails. With one argument that is the path of a directory, the path
  does not refer to a readable file, and the run ends with a traceback on standard error
  and exit code 1, not 2. The same happens for a path whose lookup fails.
\<close>

theorem file_missing_counterexample:
  "length (tl [prog, lit ''build'']) = 1 \<and>
   files build_directory (lit ''build'') = Unreadable \<and>
   exit_code (main ascii_tables [prog, lit ''build''] build_directory) = 1 \<and>
   exit_code (main ascii_tables [prog, lit ''build''] build_directory) \<noteq> 2 \<and>
   stderr (main ascii_tables [prog, lit ''build''] build_directory) = traceback OSError \<and>
   length (tl [prog, long_name]) = 1 \<and>
   files (disk long_name NoStat) long_name = NoStat \<and>
   exit_code (main ascii_tables [prog, long_name] (disk long_name NoStat)) = 1 \<and>
   stderr (main ascii_tables [prog, long_name] (disk long_name NoStat)) = traceback OSError"
proof -
  have l: "length [prog, lit ''build''] = 2" by simp
  have f: "files build_directory ([prog, lit ''build''] ! 1) = Unreadable"
    by (simp add: build_directory_def disk_def)
  have l': "length [prog, long_name] = 2" by simp
  have f': "files (disk long_name NoStat) ([prog, long_name] ! 1) = NoStat"
    by (simp add: disk_def)
  from main_Unreadable [OF l f, of ascii_tables] f main_NoStat [OF l' f', of ascii_tables] f'
  show ?thesis by simp
qed

text \<open>
  C6, amended. With exactly one argument: when the lookup reports that nothing is at
  the supplied path (\<^verbatim>\<open>exists()\<close> is false), the outcome is FileMissing: the line
  \<^verbatim>\<open>Error: Output file not found: <path>\<close> is written to standard error, nothing to
  standard output, and the exit code is 2. When the lookup fails with another error, or
  the path exists and cannot be read, a traceback is written to standard error and the
  exit code is 1. The exit code is 2 for no other path than one at which nothing is.
\<close>

theorem file_absent:
  assumes "length (tl argv) = 1"
  shows "(files w (argv ! 1) = Absent \<longrightarrow>
            exit_code (main T argv w) = 2 \<and>
            stderr (main T argv w) =
              [[Text ''Error: '', Text ''Output file not found: '', PathText (argv ! 1)]] \<and>
            stdout (main T argv w) = []) \<and>
         (files w (argv ! 1) = NoStat \<or> files w (argv ! 1) = Unreadable \<longrightarrow>
            exit_code (main T argv w) = 1 \<and>
            stderr (main T argv w) = traceback OSError \<and>
            stdout (main T argv w) = []) \<and>
         (exit_code (main T argv w) = 2 \<longleftrightarrow> files w (argv ! 1) = Absent)"
proof -
  from assms have l: "length argv = 2" by (cases argv) auto
  have c1: "files w (argv ! 1) = Absent \<longrightarrow>
            exit_code (main T argv w) = 2 \<and>
            stderr (main T argv w) =
              [[Text ''Error: '', Text ''Output file not found: '', PathText (argv ! 1)]] \<and>
            stdout (main T argv w) = []"
    using main_Absent [OF l, of w T] by simp
  have c2: "files w (argv ! 1) = NoStat \<or> files w (argv ! 1) = Unreadable \<longrightarrow>
            exit_code (main T argv w) = 1 \<and>
            stderr (main T argv w) = traceback OSError \<and>
            stdout (main T argv w) = []"
    using main_NoStat [OF l, of w T] main_Unreadable [OF l, of w T] by auto
  have c3: "exit_code (main T argv w) = 2 \<longleftrightarrow> files w (argv ! 1) = Absent"
  proof (cases "files w (argv ! 1)")
    case Absent
    with main_Absent [OF l Absent, of T] show ?thesis by simp
  next
    case NoStat
    with main_NoStat [OF l NoStat, of T] show ?thesis by simp
  next
    case Unreadable
    with main_Unreadable [OF l Unreadable, of T] show ?thesis by simp
  next
    case Undecodable
    with main_Undecodable [OF l Undecodable, of T] show ?thesis by simp
  next
    case (Content c)
    show ?thesis
    proof (cases "extract_summary T c")
      case (Inl e)
      from main_extract_error [OF l Content Inl] Content show ?thesis by simp
    next
      case (Inr s)
      obtain t f i where "s = (t, f, i)" by (cases s)
      with Inr have "extract_summary T c = Inr (t, f, i)" by simp
      from main_extract_summary [OF l Content this] Content show ?thesis by simp
    qed
  qed
  from c1 c2 c3 show ?thesis by (intro conjI)
qed

theorem file_absent_witness:
  "length (tl [prog, log_path]) = 1 \<and>
   files (disk (lit ''other.log'') (Content [])) ([prog, log_path] ! 1) = Absent \<and>
   exit_code (main ascii_tables [prog, log_path] (disk (lit ''other.log'') (Content []))) = 2 \<and>
   stderr (main ascii_tables [prog, log_path] (disk (lit ''other.log'') (Content []))) =
     [[Text ''Error: '', Text ''Output file not found: '', PathText log_path]] \<and>
   files (disk log_path Unreadable) ([prog, log_path] ! 1) = Unreadable \<and>
   exit_code (main ascii_tables [prog, log_path] (disk log_path Unreadable)) = 1"
proof -
  have h1: "length (tl [prog, log_path]) = 1" by simp
  have h2: "files (disk (lit ''other.log'') (Content [])) ([prog, log_path] ! 1) = Absent"
    by (simp add: disk_def log_path_def lit_def)
  have h3: "files (disk log_path Unreadable) ([prog, log_path] ! 1) = Unreadable"
    by (simp add: disk_def)
  from h1 h2 h3 file_absent [OF h1, of "disk (lit ''other.log'') (Content [])" ascii_tables]
    file_absent [OF h1, of "disk log_path Unreadable" ascii_tables]
  show ?thesis by simp
qed









end
